theory Spec2Isabelle
  imports Main "HOL-Library.Word"
begin

section \<open>rom2msx: the layout engine of \<^verbatim>\<open>rom2msx.cpp\<close>\<close>

text \<open>
  The program reads a ROM file, pads it to a multiple of 8 KiB, checks that it fits, picks
  a start bank for the chosen cartridge type, copies the banks into an output buffer that
  was filled with \<^verbatim>\<open>0xFF\<close>, writes the buffer to the output file and, with
  \<^verbatim>\<open>--verify\<close>, reads the file back and checks it.

  Modelling decisions:
  \<^item> a \<^verbatim>\<open>std::vector<uint8_t>\<close> is a list of 8-bit words;
  \<^item> \<^verbatim>\<open>size_t\<close> values are natural numbers. The only \<^verbatim>\<open>size_t\<close> values the program
    computes are vector sizes, bank counts (a size divided by 8192), offsets of at most
    a size plus eight banks, and the chip size; a vector's size is bounded by
    \<^verbatim>\<open>max_size()\<close>, so none of them reaches \<open>2^64\<close>. The two casts from \<^verbatim>\<open>int\<close> to
    \<^verbatim>\<open>size_t\<close> are modelled with their wrap-around (\<open>size_t\<close> below);
  \<^item> \<^verbatim>\<open>die(msg)\<close> prints the message and exits with status 1: the model returns
    \<open>Inl\<close> of the message, one constructor of \<open>die_msg\<close> per message;
  \<^item> \<^verbatim>\<open>read_file\<close> and \<^verbatim>\<open>write_file\<close> are taken to succeed: the input file's bytes are
    the argument \<open>rom\<close>, and the output file is a value of type \<open>byte list option\<close>
    (\<open>None\<close>: the file does not exist) that \<open>main\<close> returns updated.
\<close>

subsection \<open>Data\<close>

type_synonym byte = "8 word"

text \<open>\<^verbatim>\<open>enum class CartType { MegaSCC, RC755, Simple64K };\<close>\<close>

datatype CartType = MegaSCC | RC755 | Simple64K

text \<open>
  The messages passed to \<^verbatim>\<open>die\<close> between the padding and the end of \<^verbatim>\<open>main\<close>, in source order:
  \<^item> \<open>RomTooLargeSimple64K\<close>: "ROM too large for Simple64K (max 64 KiB)" (line 127);
  \<^item> \<open>RomLargerThanChip\<close>: "Input ROM (after 8 KiB padding) is larger than selected chip size" (line 132);
  \<^item> \<open>AddrExceeds8Banks\<close>: "Simple64K: --addr + bank_count exceeds 8 banks" (line 154);
  \<^item> \<open>AutoStartDoesNotFit\<close>: "Simple64K: auto start doesn't fit; try a smaller ROM or pass --addr" (line 164);
  \<^item> \<open>OutputOverflow\<close>: "Output overflow: bank placement exceeds selected chip size" (line 177);
  \<^item> \<open>VerifyBankMismatch bank\<close>: "--verify: mismatch in bank " followed by the decimal bank index (line 207);
  \<^item> \<open>VerifyNonFF\<close>: "--verify: non-0xFF found outside written area" (line 216).

  \<open>OutOfRangeRead\<close> is not a message: it stands for an index beyond the end of a vector
  in the verify pass, which is undefined behaviour in C++.
\<close>

datatype die_msg =
    RomTooLargeSimple64K
  | RomLargerThanChip
  | AddrExceeds8Banks
  | AutoStartDoesNotFit
  | OutputOverflow
  | VerifyBankMismatch nat
  | VerifyNonFF
  | OutOfRangeRead

text \<open>
  The specification's error taxonomy (its section 7), and the class of each message:
  capacity checks are \<open>CapacityError\<close>, both "does not fit in 8 banks" messages of the
  start-bank computation are \<open>RangeError\<close>, the placement check is \<open>OverflowError\<close>,
  both verify messages are \<open>VerifyMismatch\<close>.
\<close>

datatype error_kind = CapacityError | RangeError | OverflowError | VerifyMismatch | UndefinedBehaviour

fun kind_of :: "die_msg \<Rightarrow> error_kind" where
  "kind_of RomTooLargeSimple64K = CapacityError"
| "kind_of RomLargerThanChip = CapacityError"
| "kind_of AddrExceeds8Banks = RangeError"
| "kind_of AutoStartDoesNotFit = RangeError"
| "kind_of OutputOverflow = OverflowError"
| "kind_of (VerifyBankMismatch bank) = VerifyMismatch"
| "kind_of VerifyNonFF = VerifyMismatch"
| "kind_of OutOfRangeRead = UndefinedBehaviour"

text \<open>\<^verbatim>\<open>constexpr size_t BANK_SIZE = 0x2000;\<close>\<close>

definition BANK_SIZE :: nat where
  "BANK_SIZE = 8192"

text \<open>\<^verbatim>\<open>static_cast<size_t>(i)\<close> for an \<^verbatim>\<open>int\<close> \<open>i\<close>, with 64-bit \<^verbatim>\<open>size_t\<close>.\<close>

definition size_t :: "int \<Rightarrow> nat" where
  "size_t i = nat (i mod 2 ^ 64)"

text \<open>\<^verbatim>\<open>size_t chip_bytes = static_cast<size_t>(chip_kib) * 1024ULL;\<close> (line 113)\<close>

definition chip_bytes_of :: "int \<Rightarrow> nat" where
  "chip_bytes_of chip_kib = (size_t chip_kib * 1024) mod 2 ^ 64"

text \<open>The values \<^verbatim>\<open>--chip\<close> accepts (line 91).\<close>

definition chip_sizes :: "int set" where
  "chip_sizes = {64, 128, 256, 512}"

subsection \<open>Padding (lines 117 to 122)\<close>

text \<open>\<^verbatim>\<open>v.resize(n, x)\<close>: truncate to \<open>n\<close> elements, or append copies of \<open>x\<close> up to \<open>n\<close>.\<close>

definition resize :: "'a list \<Rightarrow> nat \<Rightarrow> 'a \<Rightarrow> 'a list" where
  "resize v n x = take n v @ replicate (n - length v) x"

definition pad_rom :: "byte list \<Rightarrow> byte list" where
  "pad_rom rom =
     (if length rom mod BANK_SIZE \<noteq> 0
      then (let padded = ((length rom + BANK_SIZE - 1) div BANK_SIZE) * BANK_SIZE
            in resize rom padded 0xFF)
      else rom)"

subsection \<open>Start bank (lines 139 to 169)\<close>

text \<open>
  \<open>s64k_addr\<close> is the \<^verbatim>\<open>int\<close> of the source: \<open>-1\<close> when \<^verbatim>\<open>--addr\<close> was not given,
  otherwise the value given, which the option parser admits only in \<open>0..7\<close> (line 104).
  \<open>rom\<close> is the padded ROM and \<open>in_banks\<close> its number of banks.
\<close>

definition compute_placement :: "CartType \<Rightarrow> int \<Rightarrow> byte list \<Rightarrow> nat \<Rightarrow> die_msg + nat" where
  "compute_placement type s64k_addr rom in_banks =
     (case type of
        MegaSCC \<Rightarrow> Inr 0
      | RC755 \<Rightarrow> Inr 0
      | Simple64K \<Rightarrow>
          (if s64k_addr \<ge> 0
           then (if size_t s64k_addr + in_banks > 8 then Inl AddrExceeds8Banks
                 else Inr (size_t s64k_addr))
           else (let size_kib = length rom div 1024;
                     start_bank = (if size_kib \<le> 32 then 2 else 0)
                 in if start_bank + in_banks > 8 then Inl AutoStartDoesNotFit
                    else Inr start_bank)))"

subsection \<open>Placement (lines 171 to 180)\<close>

text \<open>
  \<^verbatim>\<open>std::memcpy(dst.data() + dst_off, src.data() + src_off, n)\<close> on two distinct vectors.
  The source calls it only with both ranges inside their vectors (lemma
  \<open>place_banks_Inr\<close> below uses exactly that).
\<close>

definition memcpy :: "byte list \<Rightarrow> nat \<Rightarrow> byte list \<Rightarrow> nat \<Rightarrow> nat \<Rightarrow> byte list" where
  "memcpy dst dst_off src src_off n =
     take dst_off dst @ take n (drop src_off src) @ drop (dst_off + n) dst"

text \<open>The loop \<^verbatim>\<open>for (size_t bank = 0; bank < in_banks; ++bank)\<close>, from loop counter \<open>bank\<close> on.\<close>

function place_banks :: "nat \<Rightarrow> nat \<Rightarrow> nat \<Rightarrow> byte list \<Rightarrow> byte list \<Rightarrow> die_msg + byte list" where
  "place_banks bank in_banks start_bank rom out =
     (if bank < in_banks
      then (let dst_bank = start_bank + bank;
                dst_off = dst_bank * BANK_SIZE;
                src_off = bank * BANK_SIZE
            in if dst_off + BANK_SIZE > length out then Inl OutputOverflow
               else place_banks (bank + 1) in_banks start_bank rom
                      (memcpy out dst_off rom src_off BANK_SIZE))
      else Inr out)"
  by pat_completeness auto
termination
  by (relation "measure (\<lambda>(bank, in_banks, start_bank, rom, out). in_banks - bank)") auto

declare place_banks.simps [simp del]

subsection \<open>Conversion (lines 112 to 180)\<close>

text \<open>
  Everything \<^verbatim>\<open>main\<close> does between reading the input and writing the output: the result
  is the output buffer with the start bank and the bank count, or the message of the
  \<^verbatim>\<open>die\<close> that ended the run.
\<close>

definition convert :: "byte list \<Rightarrow> int \<Rightarrow> CartType \<Rightarrow> int \<Rightarrow> die_msg + (byte list \<times> nat \<times> nat)" where
  "convert rom0 chip_kib type s64k_addr =
     (let chip_bytes = chip_bytes_of chip_kib;
          rom = pad_rom rom0;
          in_banks = length rom div BANK_SIZE
      in if type = Simple64K \<and> in_banks > 8 then Inl RomTooLargeSimple64K
         else if length rom > chip_bytes then Inl RomLargerThanChip
         else (let out = replicate chip_bytes (0xFF :: byte)
               in case compute_placement type s64k_addr rom in_banks of
                    Inl e \<Rightarrow> Inl e
                  | Inr start_bank \<Rightarrow>
                      (case place_banks 0 in_banks start_bank rom out of
                         Inl e \<Rightarrow> Inl e
                       | Inr out' \<Rightarrow> Inr (out', start_bank, in_banks))))"

subsection \<open>Verify pass (lines 202 to 217)\<close>

text \<open>The inner loop \<^verbatim>\<open>for (size_t i = 0; i < BANK_SIZE; ++i)\<close> of the bank check.\<close>

function verify_bytes :: "nat \<Rightarrow> nat \<Rightarrow> nat \<Rightarrow> byte list \<Rightarrow> byte list \<Rightarrow> die_msg + unit" where
  "verify_bytes i dst_off bank vb rom =
     (if i < BANK_SIZE
      then (if dst_off + i < length vb \<and> bank * BANK_SIZE + i < length rom
            then (if vb ! (dst_off + i) \<noteq> rom ! (bank * BANK_SIZE + i)
                  then Inl (VerifyBankMismatch bank)
                  else verify_bytes (i + 1) dst_off bank vb rom)
            else Inl OutOfRangeRead)
      else Inr ())"
  by pat_completeness auto
termination
  by (relation "measure (\<lambda>(i, dst_off, bank, vb, rom). BANK_SIZE - i)") auto

declare verify_bytes.simps [simp del]

text \<open>The outer loop \<^verbatim>\<open>for (size_t bank = 0; bank < in_banks; ++bank)\<close> of the bank check.\<close>

function verify_banks :: "nat \<Rightarrow> nat \<Rightarrow> nat \<Rightarrow> byte list \<Rightarrow> byte list \<Rightarrow> die_msg + unit" where
  "verify_banks bank in_banks start_bank vb rom =
     (if bank < in_banks
      then (let dst_off = (start_bank + bank) * BANK_SIZE
            in case verify_bytes 0 dst_off bank vb rom of
                 Inl e \<Rightarrow> Inl e
               | Inr u \<Rightarrow> verify_banks (bank + 1) in_banks start_bank vb rom)
      else Inr ())"
  by pat_completeness auto
termination
  by (relation "measure (\<lambda>(bank, in_banks, start_bank, vb, rom). in_banks - bank)") auto

declare verify_banks.simps [simp del]

text \<open>The loop \<^verbatim>\<open>for (size_t i = 0; i < vb.size(); ++i)\<close> that checks the bytes elsewhere.\<close>

function verify_fill :: "nat \<Rightarrow> nat \<Rightarrow> nat \<Rightarrow> byte list \<Rightarrow> die_msg + unit" where
  "verify_fill i in_banks start_bank vb =
     (if i < length vb
      then (let bank_idx = i div BANK_SIZE;
                within_written = (bank_idx \<ge> start_bank \<and> bank_idx < start_bank + in_banks)
            in if \<not> within_written \<and> vb ! i \<noteq> 0xFF then Inl VerifyNonFF
               else verify_fill (i + 1) in_banks start_bank vb)
      else Inr ())"
  by pat_completeness auto
termination
  by (relation "measure (\<lambda>(i, in_banks, start_bank, vb). length vb - i)") auto

declare verify_fill.simps [simp del]

definition verify :: "byte list \<Rightarrow> byte list \<Rightarrow> nat \<Rightarrow> nat \<Rightarrow> die_msg + unit" where
  "verify vb rom start_bank in_banks =
     (case verify_banks 0 in_banks start_bank vb rom of
        Inl e \<Rightarrow> Inl e
      | Inr u \<Rightarrow> verify_fill 0 in_banks start_bank vb)"

subsection \<open>The whole run (lines 112 to 221)\<close>

text \<open>What a run that returns 0 prints: the type, the chip size, the banks written, the start bank, and whether the verify pass ran.\<close>

record report =
  rep_type :: CartType
  rep_chip :: int
  rep_banks :: nat
  rep_start :: nat
  rep_verified :: bool

text \<open>
  \<open>sink\<close> is the content of the output file before the run; the second component of the
  result is its content after the run. \<^verbatim>\<open>write_file\<close> (line 182) replaces the content
  with the output buffer; the verify pass reads the file back into \<open>vb\<close>.
\<close>

definition main :: "byte list \<Rightarrow> int \<Rightarrow> CartType \<Rightarrow> int \<Rightarrow> bool \<Rightarrow> byte list option
                      \<Rightarrow> (die_msg + report) \<times> byte list option" where
  "main rom0 chip_kib type s64k_addr verify_flag sink =
     (case convert rom0 chip_kib type s64k_addr of
        Inl e \<Rightarrow> (Inl e, sink)
      | Inr (out, start_bank, in_banks) \<Rightarrow>
          (let sink' = Some out;
               rep = \<lparr>rep_type = type, rep_chip = chip_kib, rep_banks = in_banks,
                      rep_start = start_bank, rep_verified = verify_flag\<rparr>
           in if verify_flag
              then (let vb = out
                    in case verify vb (pad_rom rom0) start_bank in_banks of
                         Inl e \<Rightarrow> (Inl e, sink')
                       | Inr u \<Rightarrow> (Inr rep, sink'))
              else (Inr rep, sink')))"

subsection \<open>The layout and the verifier in the specification's words\<close>

text \<open>
  The specification describes the output by the placed ranges: offset \<open>k\<close> is placed
  when it lies in \<open>[(start_bank + i) * 8192, (start_bank + i) * 8192 + 8192)\<close> for some
  \<open>i < bank_count\<close>.
\<close>

definition in_placed :: "nat \<Rightarrow> nat \<Rightarrow> nat \<Rightarrow> bool" where
  "in_placed start_bank bank_count k =
     (\<exists>i\<in>{0..<bank_count}. (start_bank + i) * 8192 \<le> k \<and> k < (start_bank + i) * 8192 + 8192)"

text \<open>
  The two violations the verifier looks for: bank \<open>bank\<close> of the ROM differs from the
  bytes at its place in the output, and offset \<open>k\<close> is outside every placed range but
  does not hold \<^verbatim>\<open>0xFF\<close>.
\<close>

definition bank_differs :: "byte list \<Rightarrow> byte list \<Rightarrow> nat \<Rightarrow> nat \<Rightarrow> bool" where
  "bank_differs vb rom start_bank bank =
     (\<exists>i\<in>{0..<8192}. vb ! ((start_bank + bank) * 8192 + i) \<noteq> rom ! (bank * 8192 + i))"

definition stray :: "byte list \<Rightarrow> nat \<Rightarrow> nat \<Rightarrow> nat \<Rightarrow> bool" where
  "stray vb start_bank bank_count k = (\<not> in_placed start_bank bank_count k \<and> vb ! k \<noteq> 0xFF)"

text \<open>The first offending bank and the first offending offset, when there is one.\<close>

definition first_bad_bank :: "byte list \<Rightarrow> byte list \<Rightarrow> nat \<Rightarrow> nat \<Rightarrow> nat option" where
  "first_bad_bank vb rom start_bank bank_count =
     find (bank_differs vb rom start_bank) [0..<bank_count]"

definition first_stray :: "byte list \<Rightarrow> nat \<Rightarrow> nat \<Rightarrow> nat option" where
  "first_stray vb start_bank bank_count =
     find (stray vb start_bank bank_count) [0..<length vb]"

subsection \<open>Sizes and padding\<close>

lemma BANK_SIZE_pos: "0 < BANK_SIZE"
  by (simp add: BANK_SIZE_def)

lemma chip_bytes_of_sizes:
  "chip_kib \<in> chip_sizes \<Longrightarrow> chip_bytes_of chip_kib = nat chip_kib * 1024"
  by (auto simp: chip_sizes_def chip_bytes_of_def size_t_def)

lemma chip_bytes_of_ge:
  "chip_kib \<in> chip_sizes \<Longrightarrow> 8 * BANK_SIZE \<le> chip_bytes_of chip_kib"
  by (auto simp: chip_sizes_def chip_bytes_of_def size_t_def BANK_SIZE_def)

lemma length_pad_rom:
  "length (pad_rom rom) = ((length rom + BANK_SIZE - 1) div BANK_SIZE) * BANK_SIZE"
proof (cases "length rom mod BANK_SIZE = 0")
  case True
  define k where "k = length rom div BANK_SIZE"
  have k: "length rom = k * BANK_SIZE"
    using True div_mult_mod_eq [of "length rom" BANK_SIZE] by (simp add: k_def)
  have "(k * BANK_SIZE + BANK_SIZE - 1) div BANK_SIZE = k"
    by (simp add: BANK_SIZE_def)
  with True k show ?thesis by (simp add: pad_rom_def)
next
  case False
  have "length rom \<le> ((length rom + BANK_SIZE - 1) div BANK_SIZE) * BANK_SIZE"
    by (simp add: BANK_SIZE_def)
  with False show ?thesis by (simp add: pad_rom_def resize_def Let_def)
qed

lemma pad_rom_banks:
  "length (pad_rom rom) div BANK_SIZE * BANK_SIZE = length (pad_rom rom)"
  by (simp add: length_pad_rom BANK_SIZE_def)

lemma pad_rom_append:
  "pad_rom rom = rom @ replicate (length (pad_rom rom) - length rom) 0xFF"
proof (cases "length rom mod BANK_SIZE = 0")
  case True
  then show ?thesis by (simp add: pad_rom_def)
next
  case False
  have "length rom \<le> ((length rom + BANK_SIZE - 1) div BANK_SIZE) * BANK_SIZE"
    by (simp add: BANK_SIZE_def)
  with False show ?thesis by (simp add: pad_rom_def resize_def Let_def)
qed

lemma memcpy_length:
  "dst_off + n \<le> length dst \<Longrightarrow> src_off + n \<le> length src \<Longrightarrow>
   length (memcpy dst dst_off src src_off n) = length dst"
  by (simp add: memcpy_def)

lemma memcpy_nth:
  assumes "dst_off + n \<le> length dst" "src_off + n \<le> length src" "k < length dst"
  shows "memcpy dst dst_off src src_off n ! k =
           (if dst_off \<le> k \<and> k < dst_off + n then src ! (src_off + (k - dst_off)) else dst ! k)"
  using assms by (auto simp: memcpy_def nth_append)

text \<open>
  The \<^verbatim>\<open>size_t\<close> arithmetic does not wrap: for a ROM shorter than \<open>2^63\<close> bytes, the
  sum formed while padding, the padded length and every destination range up to start
  bank 7 stay below \<open>2^64\<close>.
\<close>

lemma size_t_no_wrap:
  assumes "length rom < 2 ^ 63"
  shows "length rom + BANK_SIZE - 1 < 2 ^ 64"
    and "length (pad_rom rom) < 2 ^ 64"
    and "(7 + length (pad_rom rom) div BANK_SIZE) * BANK_SIZE + BANK_SIZE < 2 ^ 64"
proof -
  from assms show "length rom + BANK_SIZE - 1 < 2 ^ 64"
    by (simp add: BANK_SIZE_def)
  have le: "length (pad_rom rom) \<le> length rom + BANK_SIZE - 1"
    unfolding length_pad_rom by simp
  with assms show "length (pad_rom rom) < 2 ^ 64"
    by (simp add: BANK_SIZE_def)
  have "(7 + length (pad_rom rom) div BANK_SIZE) * BANK_SIZE + BANK_SIZE
          = length (pad_rom rom) + 8 * BANK_SIZE"
    using pad_rom_banks [of rom] by (simp add: add_mult_distrib)
  with le assms show "(7 + length (pad_rom rom) div BANK_SIZE) * BANK_SIZE + BANK_SIZE < 2 ^ 64"
    by (simp add: BANK_SIZE_def)
qed

subsection \<open>The placement loop\<close>

text \<open>
  When the destination ranges fit, the loop returns a buffer; and whenever it returns a
  buffer, the ranges did fit, the length is unchanged, and each byte is the ROM's inside
  the ranges written from \<open>bank\<close> on and the old byte elsewhere.
\<close>

lemma place_banks_fits:
  assumes "(start_bank + in_banks) * BANK_SIZE \<le> length out"
      and "in_banks * BANK_SIZE \<le> length rom"
  shows "\<exists>out'. place_banks bank in_banks start_bank rom out = Inr out'"
  using assms
proof (induction bank in_banks start_bank rom out rule: place_banks.induct)
  case (1 bank in_banks start_bank rom out)
  show ?case
  proof (cases "bank < in_banks")
    case False
    then show ?thesis by (subst place_banks.simps) simp
  next
    case True
    let ?dst = "(start_bank + bank) * BANK_SIZE"
    let ?src = "bank * BANK_SIZE"
    have "(start_bank + bank + 1) * BANK_SIZE \<le> (start_bank + in_banks) * BANK_SIZE"
      using True by (intro mult_le_mono1) simp
    with "1.prems" have dst: "?dst + BANK_SIZE \<le> length out" by simp
    have "(bank + 1) * BANK_SIZE \<le> in_banks * BANK_SIZE"
      using True by (intro mult_le_mono1) simp
    with "1.prems" have src: "?src + BANK_SIZE \<le> length rom" by simp
    have len: "length (memcpy out ?dst rom ?src BANK_SIZE) = length out"
      using dst src by (rule memcpy_length)
    have "\<exists>out'. place_banks (bank + 1) in_banks start_bank rom
                   (memcpy out ?dst rom ?src BANK_SIZE) = Inr out'"
      using True dst "1.prems" len by (intro "1.IH" [OF True refl refl refl]) simp_all
    then show ?thesis
      using True dst by (subst place_banks.simps) (simp add: Let_def)
  qed
qed

lemma place_banks_Inr:
  assumes "place_banks bank in_banks start_bank rom out = Inr out'"
      and "in_banks * BANK_SIZE \<le> length rom"
  shows "length out' = length out \<and>
         (bank < in_banks \<longrightarrow> (start_bank + in_banks) * BANK_SIZE \<le> length out) \<and>
         (\<forall>k<length out. out' ! k =
            (if (start_bank + bank) * BANK_SIZE \<le> k \<and> k < (start_bank + in_banks) * BANK_SIZE
             then rom ! (k - start_bank * BANK_SIZE) else out ! k))"
  using assms
proof (induction bank in_banks start_bank rom out rule: place_banks.induct)
  case (1 bank in_banks start_bank rom out)
  show ?case
  proof (cases "bank < in_banks")
    case False
    with "1.prems"(1) have "out' = out"
      by (subst (asm) place_banks.simps) simp
    with False show ?thesis by (auto simp: BANK_SIZE_def)
  next
    case True
    let ?dst = "(start_bank + bank) * BANK_SIZE"
    let ?src = "bank * BANK_SIZE"
    let ?out1 = "memcpy out ?dst rom ?src BANK_SIZE"
    from "1.prems"(1) True have dst: "?dst + BANK_SIZE \<le> length out"
      by (subst (asm) place_banks.simps) (simp add: Let_def split: if_splits)
    from "1.prems"(1) True dst have rec: "place_banks (bank + 1) in_banks start_bank rom ?out1 = Inr out'"
      by (subst (asm) place_banks.simps) (simp add: Let_def)
    have "(bank + 1) * BANK_SIZE \<le> in_banks * BANK_SIZE"
      using True by (intro mult_le_mono1) simp
    with "1.prems"(2) have src: "?src + BANK_SIZE \<le> length rom" by simp
    have len1: "length ?out1 = length out"
      using dst src by (rule memcpy_length)
    have IH: "length out' = length ?out1 \<and>
         (bank + 1 < in_banks \<longrightarrow> (start_bank + in_banks) * BANK_SIZE \<le> length ?out1) \<and>
         (\<forall>k<length ?out1. out' ! k =
            (if (start_bank + (bank + 1)) * BANK_SIZE \<le> k \<and> k < (start_bank + in_banks) * BANK_SIZE
             then rom ! (k - start_bank * BANK_SIZE) else ?out1 ! k))"
      using True dst rec "1.prems"(2) by (intro "1.IH" [OF True refl refl refl]) simp_all
    have fits: "(start_bank + in_banks) * BANK_SIZE \<le> length out"
    proof (cases "bank + 1 < in_banks")
      case True
      with IH len1 show ?thesis by simp
    next
      case False
      with \<open>bank < in_banks\<close> have "in_banks = bank + 1" by simp
      with dst show ?thesis by simp
    qed
    have pt: "out' ! k =
            (if ?dst \<le> k \<and> k < (start_bank + in_banks) * BANK_SIZE
             then rom ! (k - start_bank * BANK_SIZE) else out ! k)" if k: "k < length out" for k
    proof -
      have a: "out' ! k = (if (start_bank + (bank + 1)) * BANK_SIZE \<le> k \<and> k < (start_bank + in_banks) * BANK_SIZE
             then rom ! (k - start_bank * BANK_SIZE) else ?out1 ! k)"
        using IH k len1 by simp
      have b: "?out1 ! k = (if ?dst \<le> k \<and> k < ?dst + BANK_SIZE then rom ! (?src + (k - ?dst)) else out ! k)"
        using dst src k by (rule memcpy_nth)
      have c: "?dst \<le> k \<Longrightarrow> ?src + (k - ?dst) = k - start_bank * BANK_SIZE"
        by (simp add: BANK_SIZE_def)
      have d: "(start_bank + (bank + 1)) * BANK_SIZE = ?dst + BANK_SIZE"
        by simp
      have e: "?dst + BANK_SIZE \<le> (start_bank + in_banks) * BANK_SIZE"
        using True by (simp add: BANK_SIZE_def)
      show ?thesis
        unfolding a b d using c e by auto
    qed
    from IH len1 fits pt show ?thesis by simp
  qed
qed

subsection \<open>Placed ranges\<close>

text \<open>
  The specification's "in the range of some bank", the source's test on \<open>i / BANK_SIZE\<close>
  in the verify pass, and the single interval from the first placed byte to the last are
  the same set of offsets.
\<close>

lemma in_placed_div:
  "in_placed start_bank bank_count k \<longleftrightarrow>
     start_bank \<le> k div BANK_SIZE \<and> k div BANK_SIZE < start_bank + bank_count"
proof
  assume "in_placed start_bank bank_count k"
  then obtain i where i: "i < bank_count" "(start_bank + i) * 8192 \<le> k" "k < (start_bank + i) * 8192 + 8192"
    by (auto simp: in_placed_def)
  from i(2,3) have "k div 8192 = start_bank + i"
    by (intro div_nat_eqI) simp_all
  with i(1) show "start_bank \<le> k div BANK_SIZE \<and> k div BANK_SIZE < start_bank + bank_count"
    by (simp add: BANK_SIZE_def)
next
  assume a: "start_bank \<le> k div BANK_SIZE \<and> k div BANK_SIZE < start_bank + bank_count"
  define i where "i = k div 8192 - start_bank"
  from a have i: "i < bank_count" "start_bank + i = k div 8192"
    unfolding i_def BANK_SIZE_def by linarith+
  have "(k div 8192) * 8192 \<le> k" by simp
  moreover have "k < (k div 8192) * 8192 + 8192"
    using div_mult_mod_eq [of k 8192] mod_less_divisor [of 8192 k] by linarith
  ultimately show "in_placed start_bank bank_count k"
    using i unfolding in_placed_def by (intro bexI [of _ i]) simp_all
qed

lemma in_placed_range:
  "in_placed start_bank bank_count k \<longleftrightarrow>
     start_bank * BANK_SIZE \<le> k \<and> k < (start_bank + bank_count) * BANK_SIZE"
  unfolding in_placed_div
  by (simp add: less_eq_div_iff_mult_less_eq div_less_iff_less_mult BANK_SIZE_pos)

subsection \<open>The verify loops\<close>

lemma verify_bytes_eq:
  assumes "dst_off + BANK_SIZE \<le> length vb" and "bank * BANK_SIZE + BANK_SIZE \<le> length rom"
  shows "verify_bytes i dst_off bank vb rom =
           (if \<exists>j. i \<le> j \<and> j < BANK_SIZE \<and> vb ! (dst_off + j) \<noteq> rom ! (bank * BANK_SIZE + j)
            then Inl (VerifyBankMismatch bank) else Inr ())"
  using assms
proof (induction i dst_off bank vb rom rule: verify_bytes.induct)
  case (1 i dst_off bank vb rom)
  show ?case
  proof (cases "i < BANK_SIZE")
    case False
    then show ?thesis by (subst verify_bytes.simps) auto
  next
    case True
    with "1.prems" have inb: "dst_off + i < length vb \<and> bank * BANK_SIZE + i < length rom"
      by simp
    show ?thesis
    proof (cases "vb ! (dst_off + i) \<noteq> rom ! (bank * BANK_SIZE + i)")
      case True
      with \<open>i < BANK_SIZE\<close> inb show ?thesis
        by (subst verify_bytes.simps) auto
    next
      case False
      have IH: "verify_bytes (i + 1) dst_off bank vb rom =
           (if \<exists>j. i + 1 \<le> j \<and> j < BANK_SIZE \<and> vb ! (dst_off + j) \<noteq> rom ! (bank * BANK_SIZE + j)
            then Inl (VerifyBankMismatch bank) else Inr ())"
        using True inb False "1.prems" by (intro "1.IH") simp_all
      have "(\<exists>j. i + 1 \<le> j \<and> j < BANK_SIZE \<and> vb ! (dst_off + j) \<noteq> rom ! (bank * BANK_SIZE + j)) \<longleftrightarrow>
            (\<exists>j. i \<le> j \<and> j < BANK_SIZE \<and> vb ! (dst_off + j) \<noteq> rom ! (bank * BANK_SIZE + j))"
        using False by (metis Suc_eq_plus1 Suc_leI le_neq_implies_less Suc_leD)
      with IH True inb False show ?thesis
        by (subst verify_bytes.simps) simp
    qed
  qed
qed

lemma verify_bytes_bank:
  assumes "(start_bank + bank) * BANK_SIZE + BANK_SIZE \<le> length vb"
      and "bank * BANK_SIZE + BANK_SIZE \<le> length rom"
  shows "verify_bytes 0 ((start_bank + bank) * BANK_SIZE) bank vb rom =
           (if bank_differs vb rom start_bank bank then Inl (VerifyBankMismatch bank) else Inr ())"
  unfolding verify_bytes_eq [OF assms] bank_differs_def
  by (auto simp: BANK_SIZE_def)

lemma bank_in_bounds:
  assumes "bank < in_banks" and "(start_bank + in_banks) * BANK_SIZE \<le> length vb"
      and "in_banks * BANK_SIZE \<le> length rom"
  shows "(start_bank + bank) * BANK_SIZE + BANK_SIZE \<le> length vb"
    and "bank * BANK_SIZE + BANK_SIZE \<le> length rom"
proof -
  have "(start_bank + bank + 1) * BANK_SIZE \<le> (start_bank + in_banks) * BANK_SIZE"
    using assms(1) by (intro mult_le_mono1) simp
  with assms(2) show "(start_bank + bank) * BANK_SIZE + BANK_SIZE \<le> length vb" by simp
  have "(bank + 1) * BANK_SIZE \<le> in_banks * BANK_SIZE"
    using assms(1) by (intro mult_le_mono1) simp
  with assms(3) show "bank * BANK_SIZE + BANK_SIZE \<le> length rom" by simp
qed

lemma verify_banks_ok:
  assumes "bank < in_banks \<longrightarrow> (start_bank + in_banks) * BANK_SIZE \<le> length vb"
      and "in_banks * BANK_SIZE \<le> length rom"
      and "\<forall>b. bank \<le> b \<and> b < in_banks \<longrightarrow> \<not> bank_differs vb rom start_bank b"
  shows "verify_banks bank in_banks start_bank vb rom = Inr ()"
  using assms
proof (induction bank in_banks start_bank vb rom rule: verify_banks.induct)
  case (1 bank in_banks start_bank vb rom)
  show ?case
  proof (cases "bank < in_banks")
    case False
    then show ?thesis by (subst verify_banks.simps) simp
  next
    case True
    with "1.prems"(1) have fits: "(start_bank + in_banks) * BANK_SIZE \<le> length vb" by simp
    have vbytes: "verify_bytes 0 ((start_bank + bank) * BANK_SIZE) bank vb rom = Inr ()"
      using bank_in_bounds [OF True fits "1.prems"(2)] "1.prems"(3) True
      by (simp add: verify_bytes_bank)
    have "verify_banks (bank + 1) in_banks start_bank vb rom = Inr ()"
      using "1.prems"(2,3) fits by (intro "1.IH" [OF True refl vbytes]) simp_all
    with True vbytes show ?thesis
      by (subst verify_banks.simps) (simp add: Let_def)
  qed
qed

lemma verify_banks_first:
  assumes "(start_bank + in_banks) * BANK_SIZE \<le> length vb"
      and "in_banks * BANK_SIZE \<le> length rom"
      and "bank \<le> b" and "b < in_banks"
      and "bank_differs vb rom start_bank b"
      and "\<forall>b'. bank \<le> b' \<and> b' < b \<longrightarrow> \<not> bank_differs vb rom start_bank b'"
  shows "verify_banks bank in_banks start_bank vb rom = Inl (VerifyBankMismatch b)"
  using assms
proof (induction bank in_banks start_bank vb rom rule: verify_banks.induct)
  case (1 bank in_banks start_bank vb rom)
  from "1.prems"(3,4) have True: "bank < in_banks" by simp
  note inb = bank_in_bounds [OF True "1.prems"(1,2)]
  show ?case
  proof (cases "bank = b")
    case True
    with "1.prems"(5) inb have "verify_bytes 0 ((start_bank + bank) * BANK_SIZE) bank vb rom = Inl (VerifyBankMismatch b)"
      by (simp add: verify_bytes_bank)
    with \<open>bank < in_banks\<close> show ?thesis
      by (subst verify_banks.simps) (simp add: Let_def)
  next
    case False
    with "1.prems"(3) have lt: "bank < b" by simp
    with "1.prems"(6) have "\<not> bank_differs vb rom start_bank bank" by simp
    with inb have vbytes: "verify_bytes 0 ((start_bank + bank) * BANK_SIZE) bank vb rom = Inr ()"
      by (simp add: verify_bytes_bank)
    have "verify_banks (bank + 1) in_banks start_bank vb rom = Inl (VerifyBankMismatch b)"
      using "1.prems" lt by (intro "1.IH" [OF True refl vbytes]) simp_all
    with True vbytes show ?thesis
      by (subst verify_banks.simps) (simp add: Let_def)
  qed
qed

lemma verify_fill_ok:
  assumes "\<forall>k. i \<le> k \<and> k < length vb \<longrightarrow> \<not> stray vb start_bank in_banks k"
  shows "verify_fill i in_banks start_bank vb = Inr ()"
  using assms
proof (induction i in_banks start_bank vb rule: verify_fill.induct)
  case (1 i in_banks start_bank vb)
  show ?case
  proof (cases "i < length vb")
    case False
    then show ?thesis by (subst verify_fill.simps) simp
  next
    case True
    with "1.prems" have ns: "\<not> stray vb start_bank in_banks i" by simp
    then have c: "\<not> (\<not> (start_bank \<le> i div BANK_SIZE \<and> i div BANK_SIZE < start_bank + in_banks) \<and> vb ! i \<noteq> 0xFF)"
      by (simp add: stray_def in_placed_div)
    have "verify_fill (i + 1) in_banks start_bank vb = Inr ()"
      using "1.prems" by (intro "1.IH" [OF True refl refl c]) simp
    with True c show ?thesis
      by (subst verify_fill.simps) (simp add: Let_def)
  qed
qed

lemma verify_fill_stray:
  assumes "i \<le> k" and "k < length vb" and "stray vb start_bank in_banks k"
  shows "verify_fill i in_banks start_bank vb = Inl VerifyNonFF"
  using assms
proof (induction i in_banks start_bank vb rule: verify_fill.induct)
  case (1 i in_banks start_bank vb)
  from "1.prems" have True: "i < length vb" by simp
  show ?case
  proof (cases "stray vb start_bank in_banks i")
    case True
    then have "\<not> (start_bank \<le> i div BANK_SIZE \<and> i div BANK_SIZE < start_bank + in_banks) \<and> vb ! i \<noteq> 0xFF"
      by (simp add: stray_def in_placed_div)
    with \<open>i < length vb\<close> show ?thesis
      by (subst verify_fill.simps) (simp add: Let_def)
  next
    case False
    then have c: "\<not> (\<not> (start_bank \<le> i div BANK_SIZE \<and> i div BANK_SIZE < start_bank + in_banks) \<and> vb ! i \<noteq> 0xFF)"
      by (simp add: stray_def in_placed_div)
    from False "1.prems" have "i \<noteq> k" by auto
    with "1.prems" have "i + 1 \<le> k" by simp
    then have "verify_fill (i + 1) in_banks start_bank vb = Inl VerifyNonFF"
      using "1.prems" by (intro "1.IH" [OF True refl refl c]) simp_all
    with True c show ?thesis
      by (subst verify_fill.simps) (simp add: Let_def)
  qed
qed

subsection \<open>Successful conversions\<close>

lemma convert_Inr:
  assumes "convert rom chip_kib type s64k_addr = Inr (out, start_bank, bank_count)"
  shows "bank_count = length (pad_rom rom) div BANK_SIZE"
    and "\<not> (type = Simple64K \<and> bank_count > 8)"
    and "length (pad_rom rom) \<le> chip_bytes_of chip_kib"
    and "compute_placement type s64k_addr (pad_rom rom) bank_count = Inr start_bank"
    and "place_banks 0 bank_count start_bank (pad_rom rom) (replicate (chip_bytes_of chip_kib) 0xFF) = Inr out"
  using assms
  by (auto simp: convert_def Let_def split: if_splits sum.splits)

lemma convert_layout:
  assumes "convert rom chip_kib type s64k_addr = Inr (out, start_bank, bank_count)"
  shows "length out = chip_bytes_of chip_kib"
    and "0 < bank_count \<longrightarrow> (start_bank + bank_count) * BANK_SIZE \<le> length out"
    and "\<forall>k<length out. out ! k =
           (if in_placed start_bank bank_count k then pad_rom rom ! (k - start_bank * BANK_SIZE) else 0xFF)"
proof -
  note c = convert_Inr [OF assms]
  have rom: "bank_count * BANK_SIZE \<le> length (pad_rom rom)"
    by (simp add: c(1))
  note p = place_banks_Inr [OF c(5) rom]
  from p show "length out = chip_bytes_of chip_kib" by simp
  from p show "0 < bank_count \<longrightarrow> (start_bank + bank_count) * BANK_SIZE \<le> length out" by simp
  from p show "\<forall>k<length out. out ! k =
           (if in_placed start_bank bank_count k then pad_rom rom ! (k - start_bank * BANK_SIZE) else 0xFF)"
    by (simp add: in_placed_range)
qed

lemma convert_verify:
  assumes "convert rom chip_kib type s64k_addr = Inr (out, start_bank, bank_count)"
  shows "verify out (pad_rom rom) start_bank bank_count = Inr ()"
proof -
  note c = convert_Inr [OF assms]
  note l = convert_layout [OF assms]
  have rom: "bank_count * BANK_SIZE \<le> length (pad_rom rom)"
    by (simp add: c(1))
  have nodiff: "\<not> bank_differs out (pad_rom rom) start_bank b" if b: "b < bank_count" for b
  proof -
    from b l(2) have fits: "(start_bank + bank_count) * BANK_SIZE \<le> length out" by simp
    note inb = bank_in_bounds [OF b fits rom]
    have "out ! ((start_bank + b) * 8192 + i) = pad_rom rom ! (b * 8192 + i)" if i: "i < 8192" for i
    proof -
      let ?k = "(start_bank + b) * 8192 + i"
      from i inb(1) have k: "?k < length out" by (simp add: BANK_SIZE_def)
      have "in_placed start_bank bank_count ?k"
        unfolding in_placed_def using b i by (intro bexI [of _ b]) simp_all
      with l(3) k have "out ! ?k = pad_rom rom ! (?k - start_bank * BANK_SIZE)" by simp
      also have "?k - start_bank * BANK_SIZE = b * 8192 + i"
        by (simp add: BANK_SIZE_def)
      finally show ?thesis .
    qed
    then show ?thesis by (simp add: bank_differs_def)
  qed
  have banks: "verify_banks 0 bank_count start_bank out (pad_rom rom) = Inr ()"
    using l(2) rom nodiff by (intro verify_banks_ok) simp_all
  have fill: "verify_fill 0 bank_count start_bank out = Inr ()"
    using l(3) by (intro verify_fill_ok) (simp add: stray_def)
  from banks fill show ?thesis by (simp add: verify_def)
qed

lemma place_banks_done:
  "in_banks \<le> bank \<Longrightarrow> place_banks bank in_banks start_bank rom out = Inr out"
  by (subst place_banks.simps) simp

lemma convert_one_bank_s64k:
  "convert (replicate 8192 0x41) 64 Simple64K (- 1) =
     Inr (replicate 16384 0xFF @ replicate 8192 0x41 @ replicate 40960 0xFF, 2, 1)"
  by (simp add: convert_def pad_rom_def BANK_SIZE_def chip_bytes_of_def size_t_def
      compute_placement_def place_banks.simps [of 0] place_banks_done memcpy_def Let_def)

lemma placement_fits:
  assumes "chip_kib \<in> chip_sizes"
      and "\<not> (type = Simple64K \<and> bank_count > 8)"
      and "length rom \<le> chip_bytes_of chip_kib"
      and "bank_count = length rom div BANK_SIZE"
      and "compute_placement type s64k_addr rom bank_count = Inr start_bank"
  shows "(start_bank + bank_count) * BANK_SIZE \<le> chip_bytes_of chip_kib"
proof (cases type)
  case Simple64K
  with assms(5) have "start_bank + bank_count \<le> 8"
    by (auto simp: compute_placement_def Let_def split: if_splits)
  then have "(start_bank + bank_count) * BANK_SIZE \<le> 8 * BANK_SIZE"
    by (rule mult_le_mono1)
  from order_trans [OF this chip_bytes_of_ge [OF assms(1)]] show ?thesis .
next
  case MegaSCC
  with assms(5) have "start_bank = 0" by (simp add: compute_placement_def)
  moreover have "bank_count * BANK_SIZE \<le> length rom" by (simp add: assms(4))
  ultimately show ?thesis using assms(3) by simp
next
  case RC755
  with assms(5) have "start_bank = 0" by (simp add: compute_placement_def)
  moreover have "bank_count * BANK_SIZE \<le> length rom" by (simp add: assms(4))
  ultimately show ?thesis using assms(3) by simp
qed

lemma convert_succeeds:
  assumes "chip_kib \<in> chip_sizes"
      and "\<not> (type = Simple64K \<and> bank_count > 8)"
      and "length (pad_rom rom) \<le> chip_bytes_of chip_kib"
      and "bank_count = length (pad_rom rom) div BANK_SIZE"
      and "compute_placement type s64k_addr (pad_rom rom) bank_count = Inr start_bank"
  shows "\<exists>out. convert rom chip_kib type s64k_addr = Inr (out, start_bank, bank_count)"
proof -
  have "(start_bank + bank_count) * BANK_SIZE \<le> length (replicate (chip_bytes_of chip_kib) (0xFF :: byte))"
    using placement_fits [OF assms] by simp
  moreover have "bank_count * BANK_SIZE \<le> length (pad_rom rom)"
    by (simp add: assms(4))
  ultimately obtain out where
    "place_banks 0 bank_count start_bank (pad_rom rom) (replicate (chip_bytes_of chip_kib) 0xFF) = Inr out"
    using place_banks_fits by blast
  with assms show ?thesis
    by (auto simp: convert_def Let_def)
qed

subsection \<open>C1: the layout of the output image\<close>

text \<open>
  Claim C1. Whenever a conversion with one of the four chip sizes succeeds, the output
  image is exactly \<open>chip_kib * 1024\<close> bytes long, the bank count is the padded ROM's
  length divided by 8192, and the byte at every offset \<open>k\<close> of the image is the byte
  \<open>k - start_bank * 8192\<close> of the padded ROM when \<open>k\<close> lies in the range
  \<open>[(start_bank + i) * 8192, (start_bank + i) * 8192 + 8192)\<close> of some bank
  \<open>i < bank_count\<close>, and \<^verbatim>\<open>0xFF\<close> at every other offset.
\<close>

theorem convert_output_image:
  assumes "chip_kib \<in> chip_sizes"
      and "convert rom chip_kib type s64k_addr = Inr (out, start_bank, bank_count)"
  shows "length out = nat chip_kib * 1024 \<and>
         bank_count = length (pad_rom rom) div 8192 \<and>
         (\<forall>k<length out. out ! k =
            (if \<exists>i<bank_count. (start_bank + i) * 8192 \<le> k \<and> k < (start_bank + i) * 8192 + 8192
             then pad_rom rom ! (k - start_bank * 8192) else 0xFF))"
proof -
  note l = convert_layout [OF assms(2)]
  have "length out = nat chip_kib * 1024"
    using l(1) chip_bytes_of_sizes [OF assms(1)] by simp
  moreover have "bank_count = length (pad_rom rom) div 8192"
    using convert_Inr(1) [OF assms(2)] by (simp add: BANK_SIZE_def)
  moreover have "\<forall>k<length out. out ! k =
            (if \<exists>i<bank_count. (start_bank + i) * 8192 \<le> k \<and> k < (start_bank + i) * 8192 + 8192
             then pad_rom rom ! (k - start_bank * 8192) else 0xFF)"
    using l(3) unfolding in_placed_def BANK_SIZE_def by (simp add: Bex_def)
  ultimately show ?thesis by simp
qed

theorem convert_output_image_witness:
  "(64 :: int) \<in> chip_sizes \<and>
   convert (replicate 8192 0x41) 64 Simple64K (- 1) =
     Inr (replicate 16384 0xFF @ replicate 8192 0x41 @ replicate 40960 0xFF, 2, 1) \<and>
   length (replicate 16384 (0xFF :: byte) @ replicate 8192 0x41 @ replicate 40960 0xFF) = nat 64 * 1024 \<and>
   (1 :: nat) = length (pad_rom (replicate 8192 0x41)) div 8192 \<and>
   (20000 :: nat) < length (replicate 16384 (0xFF :: byte) @ replicate 8192 0x41 @ replicate 40960 0xFF) \<and>
   (replicate 16384 (0xFF :: byte) @ replicate 8192 0x41 @ replicate 40960 0xFF) ! 20000
      = pad_rom (replicate 8192 0x41) ! (20000 - 2 * 8192) \<and>
   (100 :: nat) < length (replicate 16384 (0xFF :: byte) @ replicate 8192 0x41 @ replicate 40960 0xFF) \<and>
   (replicate 16384 (0xFF :: byte) @ replicate 8192 0x41 @ replicate 40960 0xFF) ! 100 = 0xFF"
proof -
  have h1: "(64 :: int) \<in> chip_sizes" by (simp add: chip_sizes_def)
  note t = convert_output_image [OF h1 convert_one_bank_s64k]
  from t have a: "(replicate 16384 (0xFF :: byte) @ replicate 8192 0x41 @ replicate 40960 0xFF) ! 20000
      = pad_rom (replicate 8192 0x41) ! (20000 - 2 * 8192)"
    by simp
  from t have b: "(replicate 16384 (0xFF :: byte) @ replicate 8192 0x41 @ replicate 40960 0xFF) ! 100 = 0xFF"
    by simp
  from t have c: "(1 :: nat) = length (pad_rom (replicate 8192 0x41)) div 8192"
    by simp
  from h1 a b c show ?thesis
    by (simp add: convert_one_bank_s64k)
qed

subsection \<open>C2: a converted image passes the verifier\<close>

text \<open>
  Claim C2. Whenever a conversion succeeds (for any ROM, cartridge type and start hint; the
  chip size need not even be one of the four), the verify pass run on the produced image
  with the padded ROM, the resolved start bank and the bank count succeeds, and so a run
  of the program with \<^verbatim>\<open>--verify\<close> ends with its report and the image in the
  output file, never with a verify message.
\<close>

theorem convert_then_verify:
  assumes "convert rom chip_kib type s64k_addr = Inr (out, start_bank, bank_count)"
  shows "verify out (pad_rom rom) start_bank bank_count = Inr () \<and>
         main rom chip_kib type s64k_addr True sink =
           (Inr \<lparr>rep_type = type, rep_chip = chip_kib, rep_banks = bank_count,
                 rep_start = start_bank, rep_verified = True\<rparr>, Some out)"
  using assms convert_verify [OF assms] by (simp add: main_def)

theorem convert_then_verify_witness:
  "convert (replicate 8192 0x41) 64 Simple64K (- 1) =
     Inr (replicate 16384 0xFF @ replicate 8192 0x41 @ replicate 40960 0xFF, 2, 1) \<and>
   verify (replicate 16384 0xFF @ replicate 8192 0x41 @ replicate 40960 0xFF)
     (pad_rom (replicate 8192 0x41)) 2 1 = Inr () \<and>
   main (replicate 8192 0x41) 64 Simple64K (- 1) True None =
     (Inr \<lparr>rep_type = Simple64K, rep_chip = 64, rep_banks = 1, rep_start = 2, rep_verified = True\<rparr>,
      Some (replicate 16384 0xFF @ replicate 8192 0x41 @ replicate 40960 0xFF))"
  using convert_then_verify [OF convert_one_bank_s64k, of None]
  by (simp add: convert_one_bank_s64k)

subsection \<open>Failed conversions\<close>

lemma place_banks_Inl:
  "place_banks bank in_banks start_bank rom out = Inl e \<Longrightarrow> e = OutputOverflow"
proof (induction bank in_banks start_bank rom out rule: place_banks.induct)
  case (1 bank in_banks start_bank rom out)
  show ?case
  proof (cases "bank < in_banks \<and> \<not> (start_bank + bank) * BANK_SIZE + BANK_SIZE > length out")
    case True
    with "1.prems" have "place_banks (bank + 1) in_banks start_bank rom
        (memcpy out ((start_bank + bank) * BANK_SIZE) rom (bank * BANK_SIZE) BANK_SIZE) = Inl e"
      by (subst (asm) place_banks.simps) (simp add: Let_def)
    with True show ?thesis
      by (intro "1.IH" [OF _ refl refl refl]) simp_all
  next
    case False
    with "1.prems" show ?thesis
      by (subst (asm) place_banks.simps) (auto simp: Let_def split: if_splits)
  qed
qed

lemma compute_placement_Inl:
  "compute_placement type s64k_addr rom in_banks = Inl e \<Longrightarrow> kind_of e = RangeError"
  by (auto simp: compute_placement_def Let_def split: CartType.splits if_splits)

lemma convert_Inl:
  assumes "convert rom chip_kib type s64k_addr = Inl e"
  shows "(e = RomTooLargeSimple64K \<and> type = Simple64K \<and> length (pad_rom rom) div BANK_SIZE > 8) \<or>
         (e = RomLargerThanChip \<and> \<not> (type = Simple64K \<and> length (pad_rom rom) div BANK_SIZE > 8) \<and>
            length (pad_rom rom) > chip_bytes_of chip_kib) \<or>
         (kind_of e = RangeError \<and> \<not> (type = Simple64K \<and> length (pad_rom rom) div BANK_SIZE > 8) \<and>
            length (pad_rom rom) \<le> chip_bytes_of chip_kib \<and>
            compute_placement type s64k_addr (pad_rom rom) (length (pad_rom rom) div BANK_SIZE) = Inl e) \<or>
         (e = OutputOverflow \<and> \<not> (type = Simple64K \<and> length (pad_rom rom) div BANK_SIZE > 8) \<and>
            length (pad_rom rom) \<le> chip_bytes_of chip_kib \<and>
            (\<exists>start_bank. compute_placement type s64k_addr (pad_rom rom) (length (pad_rom rom) div BANK_SIZE) = Inr start_bank \<and>
               place_banks 0 (length (pad_rom rom) div BANK_SIZE) start_bank (pad_rom rom)
                 (replicate (chip_bytes_of chip_kib) 0xFF) = Inl e))"
  using assms
  by (auto simp: convert_def Let_def split: if_splits sum.splits
           dest: place_banks_Inl compute_placement_Inl)

lemma size_t_small: "0 \<le> i \<Longrightarrow> i < 2 ^ 64 \<Longrightarrow> size_t i = nat i"
  by (simp add: size_t_def)

subsection \<open>Facts about the automatic start bank\<close>

lemma compute_placement_auto:
  "s64k_addr < 0 \<Longrightarrow> compute_placement Simple64K s64k_addr rom in_banks = Inr start_bank \<Longrightarrow>
   start_bank = (if length rom div 1024 \<le> 32 then 2 else 0)"
  by (auto simp: compute_placement_def Let_def split: if_splits)

lemma length_pad_rom_32k: "length rom = 32768 \<Longrightarrow> length (pad_rom rom) = 32768"
  by (simp add: length_pad_rom BANK_SIZE_def)

lemma length_pad_rom_32k1: "length rom = 32769 \<Longrightarrow> length (pad_rom rom) = 40960"
  by (simp add: length_pad_rom BANK_SIZE_def)

lemma chip_bytes_of_64k: "chip_kib \<in> chip_sizes \<Longrightarrow> 65536 \<le> chip_bytes_of chip_kib"
  using chip_bytes_of_ge [of chip_kib] by (simp add: BANK_SIZE_def)

subsection \<open>C3: the start bank of Simple64K without a start hint\<close>

text \<open>
  Claim C3. A Simple64K conversion without \<^verbatim>\<open>--addr\<close> (\<open>s64k_addr\<close> is negative; the
  program's default is \<open>-1\<close>) that succeeds has start bank 2 when the padded ROM's length
  divided by 1024 is at most 32, and start bank 0 otherwise. In particular, for each of
  the four chip sizes, a ROM of exactly 32 KiB converts with 4 banks and start bank 2,
  and a ROM of 32 KiB plus one byte converts with 5 banks and start bank 0.
\<close>

theorem simple64k_auto_start:
  "(s64k_addr < 0 \<longrightarrow>
      convert rom chip_kib Simple64K s64k_addr = Inr (out, start_bank, bank_count) \<longrightarrow>
      start_bank = (if length (pad_rom rom) div 1024 \<le> 32 then 2 else 0)) \<and>
   (s64k_addr < 0 \<longrightarrow> chip_kib \<in> chip_sizes \<longrightarrow> length rom4 = 32768 \<longrightarrow>
      (\<exists>out4. convert rom4 chip_kib Simple64K s64k_addr = Inr (out4, 2, 4))) \<and>
   (s64k_addr < 0 \<longrightarrow> chip_kib \<in> chip_sizes \<longrightarrow> length rom5 = 32769 \<longrightarrow>
      (\<exists>out5. convert rom5 chip_kib Simple64K s64k_addr = Inr (out5, 0, 5)))"
proof (intro conjI impI)
  assume "s64k_addr < 0" and c: "convert rom chip_kib Simple64K s64k_addr = Inr (out, start_bank, bank_count)"
  then show "start_bank = (if length (pad_rom rom) div 1024 \<le> 32 then 2 else 0)"
    using convert_Inr(4) [OF c] by (intro compute_placement_auto)
next
  assume a: "s64k_addr < 0" "chip_kib \<in> chip_sizes" "length rom4 = 32768"
  note len = length_pad_rom_32k [OF a(3)]
  show "\<exists>out4. convert rom4 chip_kib Simple64K s64k_addr = Inr (out4, 2, 4)"
  proof (rule convert_succeeds [OF a(2)])
    show "\<not> (Simple64K = Simple64K \<and> 8 < (4 :: nat))" by simp
    show "length (pad_rom rom4) \<le> chip_bytes_of chip_kib"
      using chip_bytes_of_64k [OF a(2)] len by simp
    show "4 = length (pad_rom rom4) div BANK_SIZE"
      by (simp add: len BANK_SIZE_def)
    show "compute_placement Simple64K s64k_addr (pad_rom rom4) 4 = Inr 2"
      using a(1) by (simp add: compute_placement_def len)
  qed
next
  assume a: "s64k_addr < 0" "chip_kib \<in> chip_sizes" "length rom5 = 32769"
  note len = length_pad_rom_32k1 [OF a(3)]
  show "\<exists>out5. convert rom5 chip_kib Simple64K s64k_addr = Inr (out5, 0, 5)"
  proof (rule convert_succeeds [OF a(2)])
    show "\<not> (Simple64K = Simple64K \<and> 8 < (5 :: nat))" by simp
    show "length (pad_rom rom5) \<le> chip_bytes_of chip_kib"
      using chip_bytes_of_64k [OF a(2)] len by simp
    show "5 = length (pad_rom rom5) div BANK_SIZE"
      by (simp add: len BANK_SIZE_def)
    show "compute_placement Simple64K s64k_addr (pad_rom rom5) 5 = Inr 0"
      using a(1) by (simp add: compute_placement_def len)
  qed
qed

theorem simple64k_auto_start_witness:
  "(- 1 :: int) < 0 \<and>
   convert (replicate 8192 0x41) 64 Simple64K (- 1) =
     Inr (replicate 16384 0xFF @ replicate 8192 0x41 @ replicate 40960 0xFF, 2, 1) \<and>
   (2 :: nat) = (if length (pad_rom (replicate 8192 0x41)) div 1024 \<le> 32 then 2 else 0) \<and>
   (64 :: int) \<in> chip_sizes \<and>
   length (replicate 32768 (0 :: byte)) = 32768 \<and>
   (\<exists>out4. convert (replicate 32768 0) 64 Simple64K (- 1) = Inr (out4, 2, 4)) \<and>
   length (replicate 32769 (0 :: byte)) = 32769 \<and>
   (\<exists>out5. convert (replicate 32769 0) 64 Simple64K (- 1) = Inr (out5, 0, 5))"
proof -
  have h1: "(64 :: int) \<in> chip_sizes" by (simp add: chip_sizes_def)
  note t = simple64k_auto_start [of "- 1" "replicate 8192 0x41" 64
      "replicate 16384 0xFF @ replicate 8192 0x41 @ replicate 40960 0xFF" 2 1
      "replicate 32768 0" "replicate 32769 0"]
  from t h1 show ?thesis
    by (simp add: convert_one_bank_s64k)
qed

subsection \<open>Facts about the start hint\<close>

lemma compute_placement_hint:
  assumes "0 \<le> h" and "h \<le> 7"
  shows "compute_placement Simple64K h rom in_banks =
           (if nat h + in_banks > 8 then Inl AddrExceeds8Banks else Inr (nat h))"
proof -
  from assms have "size_t h = nat h" by (intro size_t_small) simp_all
  with assms(1) show ?thesis by (simp add: compute_placement_def)
qed

lemma pad_rom_whole_banks: "length rom mod BANK_SIZE = 0 \<Longrightarrow> pad_rom rom = rom"
  by (simp add: pad_rom_def)

lemma convert_too_large_s64k:
  "8 < length (pad_rom rom) div BANK_SIZE \<Longrightarrow>
   convert rom chip_kib Simple64K s64k_addr = Inl RomTooLargeSimple64K"
  by (simp add: convert_def Let_def)

subsection \<open>C4: the start bank of Simple64K with a start hint\<close>

text \<open>
  Claim C4 says that a Simple64K conversion with a start hint \<open>h\<close> in \<open>0..7\<close> fails with
  \<open>RangeError\<close> exactly when \<open>h + bank_count > 8\<close>. The capacity check of lines 125 to
  129 runs before the hint is looked at: a ROM of nine banks (72 KiB) with hint 0 has
  \<open>h + bank_count = 9 > 8\<close>, and the conversion ends with "ROM too large for Simple64K",
  a \<open>CapacityError\<close>, not a \<open>RangeError\<close>.
\<close>

theorem simple64k_hint_counterexample:
  "convert (replicate 73728 0) 64 Simple64K 0 = Inl RomTooLargeSimple64K \<and>
   kind_of RomTooLargeSimple64K = CapacityError \<and>
   kind_of RomTooLargeSimple64K \<noteq> RangeError \<and>
   length (pad_rom (replicate 73728 0)) div BANK_SIZE = 9 \<and>
   nat 0 + length (pad_rom (replicate 73728 0)) div BANK_SIZE > 8"
  by (simp add: convert_def pad_rom_def BANK_SIZE_def Let_def)

text \<open>
  Claim C4, amended. For each of the four chip sizes and every start hint \<open>h\<close> in
  \<open>0..7\<close>: when the padded ROM has at most 8 banks, the Simple64K conversion fails with a
  \<open>RangeError\<close> exactly when \<open>h + bank_count > 8\<close>, and otherwise succeeds with start
  bank \<open>h\<close>; when the padded ROM has more than 8 banks, the conversion fails with the
  \<open>CapacityError\<close> of the Simple64K window check, whatever the hint. In particular, with 2
  banks, hint 6 succeeds with start bank 6 and hint 7 fails with the \<open>RangeError\<close>
  "--addr + bank_count exceeds 8 banks".
\<close>

theorem simple64k_hint_start:
  assumes "chip_kib \<in> chip_sizes" and "0 \<le> h" and "h \<le> 7"
      and "bank_count = length (pad_rom rom) div BANK_SIZE"
  shows "(bank_count \<le> 8 \<longrightarrow>
            ((\<exists>e. convert rom chip_kib Simple64K h = Inl e \<and> kind_of e = RangeError)
               \<longleftrightarrow> nat h + bank_count > 8)) \<and>
         (nat h + bank_count \<le> 8 \<longrightarrow>
            (\<exists>out. convert rom chip_kib Simple64K h = Inr (out, nat h, bank_count))) \<and>
         (bank_count > 8 \<longrightarrow> convert rom chip_kib Simple64K h = Inl RomTooLargeSimple64K) \<and>
         (bank_count = 2 \<and> h = 6 \<longrightarrow>
            (\<exists>out. convert rom chip_kib Simple64K h = Inr (out, 6, 2))) \<and>
         (bank_count = 2 \<and> h = 7 \<longrightarrow> convert rom chip_kib Simple64K h = Inl AddrExceeds8Banks)"
proof -
  note cp = compute_placement_hint [OF assms(2,3)]
  have succ: "\<exists>out. convert rom chip_kib Simple64K h = Inr (out, nat h, bank_count)"
    if fit: "nat h + bank_count \<le> 8"
  proof (rule convert_succeeds [OF assms(1)])
    from fit show "\<not> (Simple64K = Simple64K \<and> 8 < bank_count)" by simp
    from fit have "bank_count * BANK_SIZE \<le> 8 * BANK_SIZE"
      by (intro mult_le_mono1) simp
    then have "length (pad_rom rom) \<le> 8 * BANK_SIZE"
      using pad_rom_banks [of rom] by (simp add: assms(4))
    with chip_bytes_of_ge [OF assms(1)] show "length (pad_rom rom) \<le> chip_bytes_of chip_kib"
      by simp
    show "bank_count = length (pad_rom rom) div BANK_SIZE" by (rule assms(4))
    from fit show "compute_placement Simple64K h (pad_rom rom) bank_count = Inr (nat h)"
      by (simp add: cp)
  qed
  have fail: "convert rom chip_kib Simple64K h = Inl AddrExceeds8Banks"
    if le: "bank_count \<le> 8" and nofit: "nat h + bank_count > 8"
  proof -
    from le have "bank_count * BANK_SIZE \<le> 8 * BANK_SIZE"
      by (intro mult_le_mono1) simp
    then have "length (pad_rom rom) \<le> 8 * BANK_SIZE"
      using pad_rom_banks [of rom] by (simp add: assms(4))
    with chip_bytes_of_ge [OF assms(1)] have "length (pad_rom rom) \<le> chip_bytes_of chip_kib"
      by simp
    with le nofit show ?thesis
      using assms(4) by (simp add: convert_def Let_def cp)
  qed
  have iff: "(\<exists>e. convert rom chip_kib Simple64K h = Inl e \<and> kind_of e = RangeError)
               \<longleftrightarrow> nat h + bank_count > 8" if le: "bank_count \<le> 8"
  proof (cases "nat h + bank_count > 8")
    case True
    with fail [OF le] show ?thesis by simp
  next
    case False
    with succ obtain out where "convert rom chip_kib Simple64K h = Inr (out, nat h, bank_count)"
      by auto
    with False show ?thesis by simp
  qed
  have big: "convert rom chip_kib Simple64K h = Inl RomTooLargeSimple64K" if "bank_count > 8"
    using that assms(4) by (intro convert_too_large_s64k) simp
  have six: "\<exists>out. convert rom chip_kib Simple64K h = Inr (out, 6, 2)" if "bank_count = 2 \<and> h = 6"
    using succ that by auto
  have seven: "convert rom chip_kib Simple64K h = Inl AddrExceeds8Banks" if "bank_count = 2 \<and> h = 7"
    using fail that by auto
  from iff succ big six seven show ?thesis by blast
qed

text \<open>Instances: two banks with hints 6 and 7, and nine banks with hint 0.\<close>

lemma s64k_two_banks: "length (pad_rom (replicate 16384 0)) div BANK_SIZE = 2"
  by (simp add: pad_rom_def BANK_SIZE_def)

lemma s64k_nine_banks: "length (pad_rom (replicate 73728 0)) div BANK_SIZE = 9"
  by (simp add: pad_rom_def BANK_SIZE_def)

theorem simple64k_hint_start_witness:
  "(64 :: int) \<in> chip_sizes \<and> (0 :: int) \<le> 6 \<and> (6 :: int) \<le> 7 \<and> (0 :: int) \<le> 7 \<and> (7 :: int) \<le> 7 \<and>
   (0 :: int) \<le> 0 \<and> (0 :: int) \<le> 7 \<and>
   (2 :: nat) = length (pad_rom (replicate 16384 0)) div BANK_SIZE \<and> (2 :: nat) \<le> 8 \<and>
   nat 6 + (2 :: nat) \<le> 8 \<and>
   (\<exists>out. convert (replicate 16384 0) 64 Simple64K 6 = Inr (out, 6, 2)) \<and>
   nat 7 + (2 :: nat) > 8 \<and>
   (\<exists>e. convert (replicate 16384 0) 64 Simple64K 7 = Inl e \<and> kind_of e = RangeError) \<and>
   convert (replicate 16384 0) 64 Simple64K 7 = Inl AddrExceeds8Banks \<and>
   (9 :: nat) = length (pad_rom (replicate 73728 0)) div BANK_SIZE \<and> (9 :: nat) > 8 \<and>
   convert (replicate 73728 0) 64 Simple64K 0 = Inl RomTooLargeSimple64K"
proof -
  have h1: "(64 :: int) \<in> chip_sizes" by (simp add: chip_sizes_def)
  have b2: "(2 :: nat) = length (pad_rom (replicate 16384 0)) div BANK_SIZE"
    by (simp add: s64k_two_banks)
  have b9: "(9 :: nat) = length (pad_rom (replicate 73728 0)) div BANK_SIZE"
    by (simp add: s64k_nine_banks)
  have six: "\<exists>out. convert (replicate 16384 0) 64 Simple64K 6 = Inr (out, 6, 2)"
    using simple64k_hint_start [OF h1 _ _ b2, of 6] by simp
  have seven: "convert (replicate 16384 0) 64 Simple64K 7 = Inl AddrExceeds8Banks"
    using simple64k_hint_start [OF h1 _ _ b2, of 7] by simp
  have nine: "convert (replicate 73728 0) 64 Simple64K 0 = Inl RomTooLargeSimple64K"
    using simple64k_hint_start [OF h1 _ _ b9, of 0] by simp
  from h1 b2 b9 six seven nine show ?thesis by simp
qed

subsection \<open>Capacity failures and whole runs\<close>

lemma convert_capacity_iff:
  "(\<exists>e. convert rom chip_kib type s64k_addr = Inl e \<and> kind_of e = CapacityError) \<longleftrightarrow>
     (type = Simple64K \<and> length (pad_rom rom) div BANK_SIZE > 8) \<or>
     length (pad_rom rom) > chip_bytes_of chip_kib"
proof
  assume "\<exists>e. convert rom chip_kib type s64k_addr = Inl e \<and> kind_of e = CapacityError"
  then obtain e where e: "convert rom chip_kib type s64k_addr = Inl e" "kind_of e = CapacityError"
    by blast
  from convert_Inl [OF e(1)] e(2)
  show "(type = Simple64K \<and> length (pad_rom rom) div BANK_SIZE > 8) \<or>
        length (pad_rom rom) > chip_bytes_of chip_kib"
    by auto
next
  assume a: "(type = Simple64K \<and> length (pad_rom rom) div BANK_SIZE > 8) \<or>
             length (pad_rom rom) > chip_bytes_of chip_kib"
  show "\<exists>e. convert rom chip_kib type s64k_addr = Inl e \<and> kind_of e = CapacityError"
  proof (cases "type = Simple64K \<and> length (pad_rom rom) div BANK_SIZE > 8")
    case True
    then have "convert rom chip_kib type s64k_addr = Inl RomTooLargeSimple64K"
      by (simp add: convert_def Let_def)
    then show ?thesis by simp
  next
    case False
    with a have "convert rom chip_kib type s64k_addr = Inl RomLargerThanChip"
      by (simp add: convert_def Let_def)
    then show ?thesis by simp
  qed
qed

lemma main_convert_Inl:
  "convert rom chip_kib type s64k_addr = Inl e \<Longrightarrow>
   main rom chip_kib type s64k_addr verify_flag sink = (Inl e, sink)"
  by (simp add: main_def)

lemma main_convert_Inr:
  "convert rom chip_kib type s64k_addr = Inr (out, start_bank, bank_count) \<Longrightarrow>
   main rom chip_kib type s64k_addr verify_flag sink =
     (Inr \<lparr>rep_type = type, rep_chip = chip_kib, rep_banks = bank_count,
           rep_start = start_bank, rep_verified = verify_flag\<rparr>, Some out)"
  using convert_verify [of rom chip_kib type s64k_addr out start_bank bank_count]
  by (simp add: main_def Let_def)

subsection \<open>C5: when the conversion fails with a capacity error\<close>

text \<open>
  Claim C5. For each of the four chip sizes, the conversion fails with a \<open>CapacityError\<close>
  if and only if the cartridge type is Simple64K and the padded ROM has more than 8 banks
  (whatever the chip size), or the padded ROM is longer than \<open>chip_kib * 1024\<close> bytes. In
  particular a ROM of 160 KiB with the 128 KiB chip fails with a \<open>CapacityError\<close> for every
  cartridge type and start hint, and the run ends with the output file as it was.
\<close>

theorem capacity_error_iff:
  assumes "chip_kib \<in> chip_sizes"
  shows "((\<exists>e. convert rom chip_kib type s64k_addr = Inl e \<and> kind_of e = CapacityError) \<longleftrightarrow>
            (type = Simple64K \<and> length (pad_rom rom) div 8192 > 8) \<or>
            length (pad_rom rom) > nat chip_kib * 1024) \<and>
         (length big_rom = 163840 \<longrightarrow>
            (\<exists>e. convert big_rom 128 type s64k_addr = Inl e \<and> kind_of e = CapacityError \<and>
                 main big_rom 128 type s64k_addr verify_flag sink = (Inl e, sink)))"
proof
  show "(\<exists>e. convert rom chip_kib type s64k_addr = Inl e \<and> kind_of e = CapacityError) \<longleftrightarrow>
            (type = Simple64K \<and> length (pad_rom rom) div 8192 > 8) \<or>
            length (pad_rom rom) > nat chip_kib * 1024"
    using convert_capacity_iff [of rom chip_kib type s64k_addr] chip_bytes_of_sizes [OF assms]
    by (simp add: BANK_SIZE_def)
next
  show "length big_rom = 163840 \<longrightarrow>
            (\<exists>e. convert big_rom 128 type s64k_addr = Inl e \<and> kind_of e = CapacityError \<and>
                 main big_rom 128 type s64k_addr verify_flag sink = (Inl e, sink))"
  proof
    assume len: "length big_rom = 163840"
    then have "length (pad_rom big_rom) = 163840"
      by (simp add: length_pad_rom BANK_SIZE_def)
    moreover have "chip_bytes_of 128 = 131072"
      by (simp add: chip_bytes_of_def size_t_def)
    ultimately have "length (pad_rom big_rom) > chip_bytes_of 128" by simp
    then obtain e where e: "convert big_rom 128 type s64k_addr = Inl e" "kind_of e = CapacityError"
      using convert_capacity_iff [of big_rom 128 type s64k_addr] by blast
    with main_convert_Inl [OF e(1)] show "\<exists>e. convert big_rom 128 type s64k_addr = Inl e \<and>
        kind_of e = CapacityError \<and> main big_rom 128 type s64k_addr verify_flag sink = (Inl e, sink)"
      by blast
  qed
qed

theorem capacity_error_iff_witness:
  "(64 :: int) \<in> chip_sizes \<and>
   (\<exists>e. convert (replicate 73728 0) 64 MegaSCC (- 1) = Inl e \<and> kind_of e = CapacityError) \<and>
   length (pad_rom (replicate 73728 0)) > nat 64 * 1024 \<and>
   length (replicate 163840 (0 :: byte)) = 163840 \<and>
   (\<exists>e. convert (replicate 163840 0) 128 RC755 (- 1) = Inl e \<and> kind_of e = CapacityError \<and>
        main (replicate 163840 0) 128 RC755 (- 1) True (Some [1, 2, 3]) = (Inl e, Some [1, 2, 3]))"
proof -
  have h1: "(64 :: int) \<in> chip_sizes" by (simp add: chip_sizes_def)
  have len: "length (pad_rom (replicate 73728 0)) > nat 64 * 1024"
    by (simp add: pad_rom_def BANK_SIZE_def)
  have a: "\<exists>e. convert (replicate 73728 0) 64 MegaSCC (- 1) = Inl e \<and> kind_of e = CapacityError"
    using capacity_error_iff [OF h1, where rom = "replicate 73728 0" and type = MegaSCC
        and s64k_addr = "- 1"] len by blast
  have b: "\<exists>e. convert (replicate 163840 0) 128 RC755 (- 1) = Inl e \<and> kind_of e = CapacityError \<and>
        main (replicate 163840 0) 128 RC755 (- 1) True (Some [1, 2, 3]) = (Inl e, Some [1, 2, 3])"
    using capacity_error_iff [OF h1, where big_rom = "replicate 163840 0" and type = RC755
        and s64k_addr = "- 1" and verify_flag = True and sink = "Some [1, 2, 3]"]
    by simp
  from h1 len a b show ?thesis by simp
qed

subsection \<open>C6: a failed conversion writes nothing\<close>

text \<open>
  Claim C6. When a run ends with a \<open>CapacityError\<close>, a \<open>RangeError\<close> or an
  \<open>OverflowError\<close>, the failure is one of the conversion itself, before
  \<^verbatim>\<open>write_file\<close> is reached, and the output file holds what it held before the run.
  When a run succeeds, the output file holds the whole image the conversion produced.
\<close>

theorem failed_run_writes_nothing:
  "(main rom chip_kib type s64k_addr verify_flag sink = (Inl e, sink') \<longrightarrow>
      kind_of e \<in> {CapacityError, RangeError, OverflowError} \<longrightarrow>
      convert rom chip_kib type s64k_addr = Inl e \<and> sink' = sink) \<and>
   (main rom chip_kib type s64k_addr verify_flag sink = (Inr rep, sink') \<longrightarrow>
      (\<exists>out start_bank bank_count.
         convert rom chip_kib type s64k_addr = Inr (out, start_bank, bank_count) \<and>
         sink' = Some out \<and> length out = chip_bytes_of chip_kib))"
proof (cases "convert rom chip_kib type s64k_addr")
  case (Inl e')
  from main_convert_Inl [OF Inl] show ?thesis
    by (simp add: Inl)
next
  case (Inr r)
  obtain out start_bank bank_count where r: "r = (out, start_bank, bank_count)"
    by (cases r) auto
  from Inr r have c: "convert rom chip_kib type s64k_addr = Inr (out, start_bank, bank_count)"
    by simp
  from main_convert_Inr [OF c] convert_layout(1) [OF c] show ?thesis
    by (simp add: c)
qed

theorem failed_run_writes_nothing_witness:
  "main (replicate 73728 0) 64 Simple64K 0 True (Some [1, 2, 3]) = (Inl RomTooLargeSimple64K, Some [1, 2, 3]) \<and>
   kind_of RomTooLargeSimple64K \<in> {CapacityError, RangeError, OverflowError} \<and>
   convert (replicate 73728 0) 64 Simple64K 0 = Inl RomTooLargeSimple64K \<and>
   main (replicate 8192 0x41) 64 Simple64K (- 1) False None =
     (Inr \<lparr>rep_type = Simple64K, rep_chip = 64, rep_banks = 1, rep_start = 2, rep_verified = False\<rparr>,
      Some (replicate 16384 0xFF @ replicate 8192 0x41 @ replicate 40960 0xFF)) \<and>
   (\<exists>out start_bank bank_count.
      convert (replicate 8192 0x41) 64 Simple64K (- 1) = Inr (out, start_bank, bank_count) \<and>
      Some (replicate 16384 0xFF @ replicate 8192 0x41 @ replicate 40960 0xFF) = Some out \<and>
      length out = chip_bytes_of 64)"
proof -
  have c9: "convert (replicate 73728 0) 64 Simple64K 0 = Inl RomTooLargeSimple64K"
    by (intro convert_too_large_s64k) (simp add: s64k_nine_banks)
  have m9: "main (replicate 73728 0) 64 Simple64K 0 True (Some [1, 2, 3]) = (Inl RomTooLargeSimple64K, Some [1, 2, 3])"
    using c9 by (rule main_convert_Inl)
  have m1: "main (replicate 8192 0x41) 64 Simple64K (- 1) False None =
     (Inr \<lparr>rep_type = Simple64K, rep_chip = 64, rep_banks = 1, rep_start = 2, rep_verified = False\<rparr>,
      Some (replicate 16384 0xFF @ replicate 8192 0x41 @ replicate 40960 0xFF))"
    using convert_one_bank_s64k by (rule main_convert_Inr)
  have a: "convert (replicate 73728 0) 64 Simple64K 0 = Inl RomTooLargeSimple64K \<and> Some [1, 2, 3] = Some [1, 2, 3 :: byte]"
    using failed_run_writes_nothing [where rom = "replicate 73728 0" and chip_kib = 64
        and type = Simple64K and s64k_addr = 0 and verify_flag = True and sink = "Some [1, 2, 3]"
        and e = RomTooLargeSimple64K and sink' = "Some [1, 2, 3]"] m9
    by simp
  have b: "\<exists>out start_bank bank_count.
      convert (replicate 8192 0x41) 64 Simple64K (- 1) = Inr (out, start_bank, bank_count) \<and>
      Some (replicate 16384 0xFF @ replicate 8192 0x41 @ replicate 40960 0xFF) = Some out \<and>
      length out = chip_bytes_of 64"
    using failed_run_writes_nothing [where rom = "replicate 8192 0x41" and chip_kib = 64
        and type = Simple64K and s64k_addr = "- 1" and verify_flag = False and sink = None
        and rep = "\<lparr>rep_type = Simple64K, rep_chip = 64, rep_banks = 1, rep_start = 2, rep_verified = False\<rparr>"
        and sink' = "Some (replicate 16384 0xFF @ replicate 8192 0x41 @ replicate 40960 0xFF)"] m1
    by blast
  from m9 m1 a b show ?thesis by simp
qed

subsection \<open>MegaSCC and RC755\<close>

lemma convert_one_bank_mega:
  "convert (replicate 8192 0x41) 64 MegaSCC (- 1) =
     Inr (replicate 8192 0x41 @ replicate 57344 0xFF, 0, 1)"
  by (simp add: convert_def pad_rom_def BANK_SIZE_def chip_bytes_of_def size_t_def
      compute_placement_def place_banks.simps [of 0] place_banks_done memcpy_def Let_def)

lemma convert_mega_rc755:
  "convert rom chip_kib MegaSCC s64k_addr = convert rom chip_kib RC755 s64k_addr'"
  by (simp add: convert_def compute_placement_def Let_def)

subsection \<open>C7: the placement loop never overflows\<close>

text \<open>
  Claim C7. For each of the four chip sizes and every cartridge type: when the capacity
  checks pass and the start bank has been computed, every destination range
  \<open>[(start_bank + bank) * 8192, (start_bank + bank) * 8192 + 8192)\<close> of the placement
  loop lies inside the output buffer, the loop returns a buffer, and so no conversion
  ends with "Output overflow" (the \<open>OverflowError\<close>).
\<close>

theorem placement_never_overflows:
  assumes "chip_kib \<in> chip_sizes"
  shows "(\<not> (type = Simple64K \<and> bank_count > 8) \<longrightarrow>
          length (pad_rom rom) \<le> chip_bytes_of chip_kib \<longrightarrow>
          bank_count = length (pad_rom rom) div BANK_SIZE \<longrightarrow>
          compute_placement type s64k_addr (pad_rom rom) bank_count = Inr start_bank \<longrightarrow>
            (\<forall>bank<bank_count. (start_bank + bank) * BANK_SIZE + BANK_SIZE
                \<le> length (replicate (chip_bytes_of chip_kib) (0xFF :: byte))) \<and>
            (\<exists>out. place_banks 0 bank_count start_bank (pad_rom rom)
                     (replicate (chip_bytes_of chip_kib) 0xFF) = Inr out)) \<and>
         convert rom chip_kib type s64k_addr \<noteq> Inl OutputOverflow \<and>
         (\<forall>e. convert rom chip_kib type s64k_addr = Inl e \<longrightarrow> kind_of e \<noteq> OverflowError)"
proof (intro conjI impI allI)
  fix bank
  assume a: "\<not> (type = Simple64K \<and> bank_count > 8)"
            "length (pad_rom rom) \<le> chip_bytes_of chip_kib"
            "bank_count = length (pad_rom rom) div BANK_SIZE"
            "compute_placement type s64k_addr (pad_rom rom) bank_count = Inr start_bank"
     and b: "bank < bank_count"
  have "(start_bank + bank + 1) * BANK_SIZE \<le> (start_bank + bank_count) * BANK_SIZE"
    using b by (intro mult_le_mono1) simp
  also note placement_fits [OF assms a]
  finally show "(start_bank + bank) * BANK_SIZE + BANK_SIZE
                \<le> length (replicate (chip_bytes_of chip_kib) (0xFF :: byte))"
    by simp
next
  assume a: "\<not> (type = Simple64K \<and> bank_count > 8)"
            "length (pad_rom rom) \<le> chip_bytes_of chip_kib"
            "bank_count = length (pad_rom rom) div BANK_SIZE"
            "compute_placement type s64k_addr (pad_rom rom) bank_count = Inr start_bank"
  have "bank_count * BANK_SIZE \<le> length (pad_rom rom)"
    by (simp add: a(3))
  with placement_fits [OF assms a]
  show "\<exists>out. place_banks 0 bank_count start_bank (pad_rom rom)
                     (replicate (chip_bytes_of chip_kib) 0xFF) = Inr out"
    by (intro place_banks_fits) simp_all
next
  have no: False if c: "convert rom chip_kib type s64k_addr = Inl e" and k: "kind_of e = OverflowError" for e
  proof -
    let ?n = "length (pad_rom rom) div BANK_SIZE"
    from convert_Inl [OF c] k obtain start_bank where
      a: "\<not> (type = Simple64K \<and> ?n > 8)" "length (pad_rom rom) \<le> chip_bytes_of chip_kib"
         "compute_placement type s64k_addr (pad_rom rom) ?n = Inr start_bank"
      and p: "place_banks 0 ?n start_bank (pad_rom rom) (replicate (chip_bytes_of chip_kib) 0xFF) = Inl e"
      by auto
    have "?n * BANK_SIZE \<le> length (pad_rom rom)" by simp
    with placement_fits [OF assms a(1,2) refl a(3)]
    have "\<exists>out. place_banks 0 ?n start_bank (pad_rom rom)
                     (replicate (chip_bytes_of chip_kib) 0xFF) = Inr out"
      by (intro place_banks_fits) simp_all
    with p show False by simp
  qed
  from no [of OutputOverflow] show "convert rom chip_kib type s64k_addr \<noteq> Inl OutputOverflow"
    by auto
  fix e
  assume "convert rom chip_kib type s64k_addr = Inl e"
  with no [of e] show "kind_of e \<noteq> OverflowError" by auto
qed

theorem placement_never_overflows_witness:
  "(64 :: int) \<in> chip_sizes \<and>
   \<not> (Simple64K = Simple64K \<and> (1 :: nat) > 8) \<and>
   length (pad_rom (replicate 8192 0x41)) \<le> chip_bytes_of 64 \<and>
   (1 :: nat) = length (pad_rom (replicate 8192 0x41)) div BANK_SIZE \<and>
   compute_placement Simple64K (- 1) (pad_rom (replicate 8192 0x41)) 1 = Inr 2 \<and>
   (0 :: nat) < 1 \<and>
   (2 + 0) * BANK_SIZE + BANK_SIZE \<le> length (replicate (chip_bytes_of 64) (0xFF :: byte)) \<and>
   (\<exists>out. place_banks 0 1 2 (pad_rom (replicate 8192 0x41)) (replicate (chip_bytes_of 64) 0xFF) = Inr out) \<and>
   convert (replicate 8192 0x41) 64 Simple64K (- 1) \<noteq> Inl OutputOverflow \<and>
   convert (replicate 73728 0) 64 Simple64K 0 = Inl RomTooLargeSimple64K \<and>
   kind_of RomTooLargeSimple64K \<noteq> OverflowError"
proof -
  have h1: "(64 :: int) \<in> chip_sizes" by (simp add: chip_sizes_def)
  have pad: "pad_rom (replicate 8192 0x41) = replicate 8192 0x41"
    by (simp add: pad_rom_def BANK_SIZE_def)
  have cb: "chip_bytes_of 64 = 65536"
    by (simp add: chip_bytes_of_def size_t_def)
  have cp: "compute_placement Simple64K (- 1) (pad_rom (replicate 8192 0x41)) 1 = Inr 2"
    by (simp add: pad compute_placement_def)
  have c9: "convert (replicate 73728 0) 64 Simple64K 0 = Inl RomTooLargeSimple64K"
    by (intro convert_too_large_s64k) (simp add: s64k_nine_banks)
  note t = placement_never_overflows [OF h1, where type = Simple64K and bank_count = 1
      and rom = "replicate 8192 0x41" and s64k_addr = "- 1" and start_bank = 2]
  from t cp have "(2 + 0) * BANK_SIZE + BANK_SIZE \<le> length (replicate (chip_bytes_of 64) (0xFF :: byte)) \<and>
   (\<exists>out. place_banks 0 1 2 (pad_rom (replicate 8192 0x41)) (replicate (chip_bytes_of 64) 0xFF) = Inr out) \<and>
   convert (replicate 8192 0x41) 64 Simple64K (- 1) \<noteq> Inl OutputOverflow"
    by (simp add: pad cb BANK_SIZE_def)
  with h1 cp c9 show ?thesis
    by (simp add: pad cb BANK_SIZE_def)
qed

subsection \<open>C8: MegaSCC and RC755 give the same image\<close>

text \<open>
  Claim C8. For every ROM and chip size, the conversion for MegaSCC and the conversion for
  RC755 have the same result (the same image, start bank and bank count, or the same
  failure), whatever \<^verbatim>\<open>--addr\<close> was given to either; when they succeed the start bank is
  0 and the bank count is that of the padded ROM; and the two runs leave the same bytes in
  the output file.
\<close>

theorem megascc_rc755_same_image:
  "convert rom chip_kib MegaSCC s64k_addr = convert rom chip_kib RC755 s64k_addr' \<and>
   (convert rom chip_kib MegaSCC s64k_addr = Inr (out, start_bank, bank_count) \<longrightarrow>
      convert rom chip_kib RC755 s64k_addr' = Inr (out, start_bank, bank_count) \<and>
      start_bank = 0 \<and> bank_count = length (pad_rom rom) div BANK_SIZE) \<and>
   snd (main rom chip_kib MegaSCC s64k_addr verify_flag sink) =
     snd (main rom chip_kib RC755 s64k_addr' verify_flag sink)"
proof (intro conjI impI)
  show eq: "convert rom chip_kib MegaSCC s64k_addr = convert rom chip_kib RC755 s64k_addr'"
    by (rule convert_mega_rc755)
  show "snd (main rom chip_kib MegaSCC s64k_addr verify_flag sink) =
     snd (main rom chip_kib RC755 s64k_addr' verify_flag sink)"
  proof (cases "convert rom chip_kib RC755 s64k_addr'")
    case (Inl e)
    with eq main_convert_Inl [of rom chip_kib MegaSCC s64k_addr e verify_flag sink]
      main_convert_Inl [of rom chip_kib RC755 s64k_addr' e verify_flag sink]
    show ?thesis by simp
  next
    case (Inr r)
    obtain out' sb bc where r: "r = (out', sb, bc)" by (cases r) auto
    with Inr eq main_convert_Inr [of rom chip_kib MegaSCC s64k_addr out' sb bc verify_flag sink]
      main_convert_Inr [of rom chip_kib RC755 s64k_addr' out' sb bc verify_flag sink]
    show ?thesis by simp
  qed
  assume c: "convert rom chip_kib MegaSCC s64k_addr = Inr (out, start_bank, bank_count)"
  with eq show "convert rom chip_kib RC755 s64k_addr' = Inr (out, start_bank, bank_count)"
    by simp
  from convert_Inr(4) [OF c] show "start_bank = 0"
    by (simp add: compute_placement_def)
  from convert_Inr(1) [OF c] show "bank_count = length (pad_rom rom) div BANK_SIZE" .
qed

theorem megascc_rc755_same_image_witness:
  "convert (replicate 8192 0x41) 64 MegaSCC (- 1) = Inr (replicate 8192 0x41 @ replicate 57344 0xFF, 0, 1) \<and>
   convert (replicate 8192 0x41) 64 RC755 3 = Inr (replicate 8192 0x41 @ replicate 57344 0xFF, 0, 1) \<and>
   (1 :: nat) = length (pad_rom (replicate 8192 0x41)) div BANK_SIZE \<and>
   snd (main (replicate 8192 0x41) 64 MegaSCC (- 1) True None) =
     snd (main (replicate 8192 0x41) 64 RC755 3 True None)"
  using megascc_rc755_same_image [where rom = "replicate 8192 0x41" and chip_kib = 64
      and s64k_addr = "- 1" and s64k_addr' = 3 and out = "replicate 8192 0x41 @ replicate 57344 0xFF"
      and start_bank = 0 and bank_count = 1 and verify_flag = True and sink = None]
    convert_one_bank_mega
  by simp

subsection \<open>C10: the empty ROM\<close>

text \<open>
  Claim C10. The empty ROM is accepted by every cartridge type and each of the four chip
  sizes, without \<^verbatim>\<open>--addr\<close> and with any \<^verbatim>\<open>--addr\<close> in \<open>0..7\<close>: padding leaves it empty,
  the bank count is 0, the start bank is 0 for MegaSCC and RC755, 2 for Simple64K without
  \<^verbatim>\<open>--addr\<close> and the given value with it, and the image is \<open>chip_kib * 1024\<close> bytes of
  \<^verbatim>\<open>0xFF\<close>.
\<close>

theorem empty_rom_converts:
  assumes "chip_kib \<in> chip_sizes" and "s64k_addr = - 1 \<or> (0 \<le> s64k_addr \<and> s64k_addr \<le> 7)"
  shows "pad_rom [] = [] \<and>
         convert [] chip_kib type s64k_addr =
           Inr (replicate (nat chip_kib * 1024) 0xFF,
                (case type of MegaSCC \<Rightarrow> 0 | RC755 \<Rightarrow> 0
                 | Simple64K \<Rightarrow> (if s64k_addr = - 1 then 2 else nat s64k_addr)),
                0)"
proof -
  have pad: "pad_rom [] = []" by (simp add: pad_rom_def)
  have cp: "compute_placement type s64k_addr [] 0 =
              Inr (case type of MegaSCC \<Rightarrow> 0 | RC755 \<Rightarrow> 0
                   | Simple64K \<Rightarrow> (if s64k_addr = - 1 then 2 else nat s64k_addr))"
  proof (cases "s64k_addr = - 1")
    case True
    then show ?thesis by (simp add: compute_placement_def split: CartType.splits)
  next
    case False
    with assms(2) have h: "0 \<le> s64k_addr" "s64k_addr \<le> 7" by simp_all
    from False compute_placement_hint [OF h, of "[]" 0] h show ?thesis
      by (cases type) (simp_all add: compute_placement_def)
  qed
  show ?thesis
    using chip_bytes_of_sizes [OF assms(1)]
    by (simp add: pad convert_def cp place_banks_done)
qed

theorem empty_rom_converts_witness:
  "(64 :: int) \<in> chip_sizes \<and> ((- 1 :: int) = - 1 \<or> (0 :: int) \<le> - 1 \<and> (- 1 :: int) \<le> 7) \<and>
   convert [] 64 Simple64K (- 1) = Inr (replicate 65536 0xFF, 2, 0) \<and>
   (512 :: int) \<in> chip_sizes \<and> ((7 :: int) = - 1 \<or> (0 :: int) \<le> 7 \<and> (7 :: int) \<le> 7) \<and>
   convert [] 512 Simple64K 7 = Inr (replicate 524288 0xFF, 7, 0) \<and>
   convert [] 64 MegaSCC (- 1) = Inr (replicate 65536 0xFF, 0, 0)"
proof -
  have h1: "(64 :: int) \<in> chip_sizes" and h2: "(512 :: int) \<in> chip_sizes"
    by (simp_all add: chip_sizes_def)
  have a: "convert [] 64 Simple64K (- 1) = Inr (replicate 65536 0xFF, 2, 0)"
    using empty_rom_converts [OF h1, of "- 1" Simple64K] by simp
  have b: "convert [] 512 Simple64K 7 = Inr (replicate 524288 0xFF, 7, 0)"
    using empty_rom_converts [OF h2, of 7 Simple64K] by simp
  have c: "convert [] 64 MegaSCC (- 1) = Inr (replicate 65536 0xFF, 0, 0)"
    using empty_rom_converts [OF h1, of "- 1" MegaSCC] by simp
  from h1 h2 a b c show ?thesis by simp
qed

subsection \<open>The verify pass against the first offending bank and offset\<close>

lemma first_bad_bank_Some:
  "first_bad_bank vb rom start_bank bank_count = Some b \<longleftrightarrow>
     b < bank_count \<and> bank_differs vb rom start_bank b \<and>
     (\<forall>b'<b. \<not> bank_differs vb rom start_bank b')"
  unfolding first_bad_bank_def find_Some_iff
  by (auto simp: less_trans)

lemma first_bad_bank_None:
  "first_bad_bank vb rom start_bank bank_count = None \<longleftrightarrow>
     (\<forall>b<bank_count. \<not> bank_differs vb rom start_bank b)"
  unfolding first_bad_bank_def find_None_iff
  by auto

lemma first_stray_Some:
  "first_stray vb start_bank bank_count = Some k \<longleftrightarrow>
     k < length vb \<and> stray vb start_bank bank_count k \<and>
     (\<forall>k'<k. \<not> stray vb start_bank bank_count k')"
  unfolding first_stray_def find_Some_iff
  by (auto simp: less_trans)

lemma first_stray_None:
  "first_stray vb start_bank bank_count = None \<longleftrightarrow>
     (\<forall>k<length vb. \<not> stray vb start_bank bank_count k)"
  unfolding first_stray_def find_None_iff
  by auto

lemma verify_eq:
  assumes "(start_bank + bank_count) * BANK_SIZE \<le> length vb"
      and "bank_count * BANK_SIZE \<le> length rom"
  shows "verify vb rom start_bank bank_count =
           (case first_bad_bank vb rom start_bank bank_count of
              Some b \<Rightarrow> Inl (VerifyBankMismatch b)
            | None \<Rightarrow> (case first_stray vb start_bank bank_count of
                         Some k \<Rightarrow> Inl VerifyNonFF
                       | None \<Rightarrow> Inr ()))"
proof (cases "first_bad_bank vb rom start_bank bank_count")
  case (Some b)
  then have b: "b < bank_count" "bank_differs vb rom start_bank b"
      "\<forall>b'<b. \<not> bank_differs vb rom start_bank b'"
    by (simp_all add: first_bad_bank_Some)
  have "verify_banks 0 bank_count start_bank vb rom = Inl (VerifyBankMismatch b)"
    using assms b by (intro verify_banks_first) simp_all
  with Some show ?thesis by (simp add: verify_def)
next
  case None
  then have "\<forall>b<bank_count. \<not> bank_differs vb rom start_bank b"
    by (simp add: first_bad_bank_None)
  with assms have banks: "verify_banks 0 bank_count start_bank vb rom = Inr ()"
    by (intro verify_banks_ok) simp_all
  show ?thesis
  proof (cases "first_stray vb start_bank bank_count")
    case (Some k)
    then have "k < length vb" "stray vb start_bank bank_count k"
      by (simp_all add: first_stray_Some)
    then have "verify_fill 0 bank_count start_bank vb = Inl VerifyNonFF"
      by (intro verify_fill_stray [of 0 k]) simp_all
    with banks None Some show ?thesis by (simp add: verify_def)
  next
    case None': None
    then have "\<forall>k<length vb. \<not> stray vb start_bank bank_count k"
      by (simp add: first_stray_None)
    then have "verify_fill 0 bank_count start_bank vb = Inr ()"
      by (intro verify_fill_ok) simp
    with banks None None' show ?thesis by (simp add: verify_def)
  qed
qed

lemma verify_stray_at_0: "verify [0x00] [] 0 0 = Inl VerifyNonFF"
proof -
  have "verify_banks 0 0 0 [0x00] [] = Inr ()"
    by (subst verify_banks.simps) simp
  moreover have "verify_fill 0 0 0 [0x00] = Inl VerifyNonFF"
    by (rule verify_fill_stray [of 0 0]) (simp_all add: stray_def in_placed_def)
  ultimately show ?thesis by (simp add: verify_def)
qed

lemma verify_stray_at_1: "verify [0xFF, 0x00] [] 0 0 = Inl VerifyNonFF"
proof -
  have "verify_banks 0 0 0 [0xFF, 0x00] [] = Inr ()"
    by (subst verify_banks.simps) simp
  moreover have "verify_fill 0 0 0 [0xFF, 0x00] = Inl VerifyNonFF"
    by (rule verify_fill_stray [of 0 1]) (simp_all add: stray_def in_placed_def)
  ultimately show ?thesis by (simp add: verify_def)
qed

lemma first_stray_at_0: "first_stray [0x00] 0 0 = Some 0"
  by (simp add: first_stray_Some stray_def in_placed_def)

lemma first_stray_at_1: "first_stray [0xFF, 0x00] 0 0 = Some 1"
  by (simp add: first_stray_Some stray_def in_placed_def)

subsection \<open>C9: what the verifier reports\<close>

text \<open>
  Claim C9 says that the \<open>VerifyMismatch\<close> names the first offending location, which for a
  byte other than \<^verbatim>\<open>0xFF\<close> outside the placed ranges would be its offset. The message
  of line 216 is the fixed text "--verify: non-0xFF found outside written area": an
  image whose first offending byte is at offset 0 and an image whose first offending byte
  is at offset 1 end the verify pass with the same message, so the message does not name
  the offset.
\<close>

theorem verify_offset_counterexample:
  "verify [0x00] [] 0 0 = Inl VerifyNonFF \<and>
   verify [0xFF, 0x00] [] 0 0 = Inl VerifyNonFF \<and>
   first_stray [0x00] 0 0 = Some 0 \<and>
   first_stray [0xFF, 0x00] 0 0 = Some 1"
  by (simp add: verify_stray_at_0 verify_stray_at_1 first_stray_at_0 first_stray_at_1)

text \<open>
  Claim C9, amended. Let the image hold all the placed ranges and the ROM all its banks
  (as they do in a run of the program). When some bank of the ROM differs from the bytes
  at its place in the image, the verify pass fails with a \<open>VerifyMismatch\<close> whose message
  names the first such bank. When no bank differs and some byte outside the placed
  ranges is not \<^verbatim>\<open>0xFF\<close>, it fails with a \<open>VerifyMismatch\<close> whose message is fixed and
  names no offset. Otherwise it succeeds.
\<close>

theorem verify_reports_first_bank:
  assumes "(start_bank + bank_count) * BANK_SIZE \<le> length vb"
      and "bank_count * BANK_SIZE \<le> length rom"
  shows "(\<forall>b. b < bank_count \<and> bank_differs vb rom start_bank b \<and>
              (\<forall>b'<b. \<not> bank_differs vb rom start_bank b') \<longrightarrow>
            verify vb rom start_bank bank_count = Inl (VerifyBankMismatch b) \<and>
            kind_of (VerifyBankMismatch b) = VerifyMismatch) \<and>
         ((\<forall>b<bank_count. \<not> bank_differs vb rom start_bank b) \<and>
          (\<exists>k<length vb. stray vb start_bank bank_count k) \<longrightarrow>
            verify vb rom start_bank bank_count = Inl VerifyNonFF \<and>
            kind_of VerifyNonFF = VerifyMismatch) \<and>
         ((\<forall>b<bank_count. \<not> bank_differs vb rom start_bank b) \<and>
          (\<forall>k<length vb. \<not> stray vb start_bank bank_count k) \<longrightarrow>
            verify vb rom start_bank bank_count = Inr ()) \<and>
         verify vb rom start_bank bank_count =
           (case first_bad_bank vb rom start_bank bank_count of
              Some b \<Rightarrow> Inl (VerifyBankMismatch b)
            | None \<Rightarrow> (case first_stray vb start_bank bank_count of
                         Some k \<Rightarrow> Inl VerifyNonFF
                       | None \<Rightarrow> Inr ()))"
proof (intro conjI allI impI)
  note eq = verify_eq [OF assms]
  show "verify vb rom start_bank bank_count =
           (case first_bad_bank vb rom start_bank bank_count of
              Some b \<Rightarrow> Inl (VerifyBankMismatch b)
            | None \<Rightarrow> (case first_stray vb start_bank bank_count of
                         Some k \<Rightarrow> Inl VerifyNonFF
                       | None \<Rightarrow> Inr ()))"
    by (rule eq)
  {
    fix b
    assume "b < bank_count \<and> bank_differs vb rom start_bank b \<and>
              (\<forall>b'<b. \<not> bank_differs vb rom start_bank b')"
    then have "first_bad_bank vb rom start_bank bank_count = Some b"
      by (simp add: first_bad_bank_Some)
    then show "verify vb rom start_bank bank_count = Inl (VerifyBankMismatch b)"
      by (simp add: eq)
    show "kind_of (VerifyBankMismatch b) = VerifyMismatch" by simp
  }
  {
    assume a: "(\<forall>b<bank_count. \<not> bank_differs vb rom start_bank b) \<and>
          (\<exists>k<length vb. stray vb start_bank bank_count k)"
    then have n: "first_bad_bank vb rom start_bank bank_count = None"
      by (simp add: first_bad_bank_None)
    from a have "first_stray vb start_bank bank_count \<noteq> None"
      by (simp add: first_stray_None)
    then obtain k where "first_stray vb start_bank bank_count = Some k" by auto
    with n show "verify vb rom start_bank bank_count = Inl VerifyNonFF"
      by (simp add: eq)
    show "kind_of VerifyNonFF = VerifyMismatch" by simp
  }
  {
    assume a: "(\<forall>b<bank_count. \<not> bank_differs vb rom start_bank b) \<and>
          (\<forall>k<length vb. \<not> stray vb start_bank bank_count k)"
    then have "first_bad_bank vb rom start_bank bank_count = None"
      and "first_stray vb start_bank bank_count = None"
      by (simp_all add: first_bad_bank_None first_stray_None)
    then show "verify vb rom start_bank bank_count = Inr ()"
      by (simp add: eq)
  }
qed

subsection \<open>Example images for the verify pass\<close>

lemma example_bank_0_same:
  "\<not> bank_differs (replicate 8192 0x41 @ replicate 8192 0x00) (replicate 16384 0x41) 0 0"
  by (simp add: bank_differs_def nth_append)

lemma example_bank_1_differs:
  "bank_differs (replicate 8192 0x41 @ replicate 8192 0x00) (replicate 16384 0x41) 0 1"
  unfolding bank_differs_def
  by (rule bexI [of _ 0]) (simp_all add: nth_append)

lemma example_stray_1: "stray [0xFF, 0x00] 0 0 1"
  by (simp add: stray_def in_placed_def)

theorem verify_reports_first_bank_witness:
  "(0 + 2) * BANK_SIZE \<le> length (replicate 8192 (0x41 :: byte) @ replicate 8192 0x00) \<and>
   2 * BANK_SIZE \<le> length (replicate 16384 (0x41 :: byte)) \<and>
   (1 :: nat) < 2 \<and>
   bank_differs (replicate 8192 0x41 @ replicate 8192 0x00) (replicate 16384 0x41) 0 1 \<and>
   \<not> bank_differs (replicate 8192 0x41 @ replicate 8192 0x00) (replicate 16384 0x41) 0 0 \<and>
   verify (replicate 8192 0x41 @ replicate 8192 0x00) (replicate 16384 0x41) 0 2
     = Inl (VerifyBankMismatch 1) \<and>
   (0 + 0) * BANK_SIZE \<le> length [0xFF, 0x00 :: byte] \<and>
   0 * BANK_SIZE \<le> length ([] :: byte list) \<and>
   (1 :: nat) < length [0xFF, 0x00 :: byte] \<and>
   stray [0xFF, 0x00] 0 0 1 \<and>
   verify [0xFF, 0x00] [] 0 0 = Inl VerifyNonFF \<and>
   (0 + 0) * BANK_SIZE \<le> length [0xFF :: byte] \<and>
   \<not> stray [0xFF] 0 0 0 \<and>
   verify [0xFF] [] 0 0 = Inr ()"
proof -
  have a1: "(0 + 2) * BANK_SIZE \<le> length (replicate 8192 (0x41 :: byte) @ replicate 8192 0x00)"
    and a2: "2 * BANK_SIZE \<le> length (replicate 16384 (0x41 :: byte))"
    by (simp_all add: BANK_SIZE_def)
  have b1: "(0 + 0) * BANK_SIZE \<le> length [0xFF, 0x00 :: byte]"
    and b2: "0 * BANK_SIZE \<le> length ([] :: byte list)"
    and c1: "(0 + 0) * BANK_SIZE \<le> length [0xFF :: byte]"
    by simp_all
  have first: "\<forall>b'<1. \<not> bank_differs (replicate 8192 0x41 @ replicate 8192 0x00) (replicate 16384 0x41) 0 b'"
    using example_bank_0_same by simp
  have A: "verify (replicate 8192 0x41 @ replicate 8192 0x00) (replicate 16384 0x41) 0 2
     = Inl (VerifyBankMismatch 1)"
  proof -
    have lt: "(1 :: nat) < 2" by simp
    from verify_reports_first_bank [OF a1 a2] lt example_bank_1_differs first
    show ?thesis by blast
  qed
  have B: "verify [0xFF, 0x00] [] 0 0 = Inl VerifyNonFF"
  proof -
    have "\<exists>k<length [0xFF, 0x00 :: byte]. stray [0xFF, 0x00] 0 0 k"
      using example_stray_1 by (intro exI [of _ 1]) simp
    with verify_reports_first_bank [OF b1 b2] show ?thesis by blast
  qed
  have ns: "\<not> stray [0xFF] 0 0 0"
    by (simp add: stray_def)
  have C: "verify [0xFF] [] 0 0 = Inr ()"
  proof -
    have "\<forall>k<length [0xFF :: byte]. \<not> stray [0xFF] 0 0 k"
      using ns by simp
    with verify_reports_first_bank [OF c1 b2] show ?thesis by blast
  qed
  from a1 a2 b1 b2 c1 A B C ns example_bank_1_differs example_bank_0_same example_stray_1
  show ?thesis by simp
qed

end
